theory Spec2Isabelle
  imports Main
begin

section \<open>JavaScript values\<close>

text \<open>
  The adapter reads untyped JavaScript objects (\<open>req.body\<close>, the \<open>data\<close> of
  \<open>send\<close>, the constructor's options). They are modelled as a datatype of values. An
  object is an association list with distinct keys, as the keys of a JavaScript object are,
  read with \<open>map_of\<close>. A number is carried as the text that ECMAScript's
  \<open>ToString\<close> gives it: the adapter never computes with numbers, it only tests their
  truthiness and interpolates them into a string.
\<close>

datatype json =
    JUndefined
  | JNull
  | JBool bool
  | JNum string
  | JStr string
  | JArr "json list"
  | JObj "(string \<times> json) list"

datatype error =
    TypeError
  | Error string

text \<open>JavaScript's truthiness (\<open>ToBoolean\<close>).\<close>

fun truthy :: "json \<Rightarrow> bool" where
  "truthy JUndefined = False"
| "truthy JNull = False"
| "truthy (JBool b) = b"
| "truthy (JNum t) = (t \<noteq> ''0'' \<and> t \<noteq> ''NaN'')"
| "truthy (JStr s) = (s \<noteq> [])"
| "truthy (JArr xs) = True"
| "truthy (JObj kvs) = True"

fun nullish :: "json \<Rightarrow> bool" where
  "nullish JUndefined = True"
| "nullish JNull = True"
| "nullish v = False"

text \<open>
  \<open>v[k]\<close> on a value that is neither \<open>null\<close> nor \<open>undefined\<close>. Only own
  properties of objects are found: none of the keys the adapter reads (\<open>request\<close>,
  \<open>session\<close>, \<open>type\<close>, \<open>intent\<close>, \<open>name\<close>, \<open>slots\<close>, \<open>application\<close>,
  \<open>user\<close>, \<open>object\<close>, \<open>content\<close>, \<open>to\<close>, \<open>id\<close>, \<open>serviceID\<close>,
  \<open>logLevel\<close>, \<open>http\<close>) is a property of a string, a number, a boolean, an array or
  of \<open>Object.prototype\<close>.
\<close>

fun js_prop :: "json \<Rightarrow> string \<Rightarrow> json" where
  "js_prop (JObj kvs) k = (case map_of kvs k of None \<Rightarrow> JUndefined | Some v \<Rightarrow> v)"
| "js_prop v k = JUndefined"

text \<open>The member expression \<open>v.k\<close>: a TypeError on \<open>null\<close> and \<open>undefined\<close>.\<close>

definition get :: "json \<Rightarrow> string \<Rightarrow> error + json" where
  "get v k = (if nullish v then Inl TypeError else Inr (js_prop v k))"

text \<open>
  Ramda's \<open>R.path\<close>: walk the keys, giving \<open>undefined\<close> as soon as the value at hand
  is \<open>null\<close> or \<open>undefined\<close>.
\<close>

fun path :: "string list \<Rightarrow> json \<Rightarrow> json" where
  "path [] v = v"
| "path (k # ks) v = (if nullish v then JUndefined else path ks (js_prop v k))"

text \<open>\<open>Array.prototype.join\<close> with a separator, on strings already rendered.\<close>

fun join :: "string \<Rightarrow> string list \<Rightarrow> string" where
  "join sep [] = []"
| "join sep [x] = x"
| "join sep (x # y # ys) = x @ sep @ join sep (y # ys)"

text \<open>
  The string a value becomes inside a template literal (\<open>ToString\<close>). An array joins
  its elements with commas, \<open>null\<close> and \<open>undefined\<close> elements giving the empty
  string.
\<close>

fun template :: "json \<Rightarrow> string" where
  "template JUndefined = ''undefined''"
| "template JNull = ''null''"
| "template (JBool b) = (if b then ''true'' else ''false'')"
| "template (JNum t) = t"
| "template (JStr s) = s"
| "template (JArr xs) = join '','' (map (\<lambda>x. if nullish x then [] else template x) xs)"
| "template (JObj kvs) = ''[object Object]''"

text \<open>\<open>String.prototype.startsWith\<close> and \<open>endsWith\<close>, with the default position.\<close>

definition startsWith :: "string \<Rightarrow> string \<Rightarrow> bool" where
  "startsWith c p = (take (length p) c = p)"

definition endsWith :: "string \<Rightarrow> string \<Rightarrow> bool" where
  "endsWith c p = (length p \<le> length c \<and> drop (length c - length p) c = p)"

section \<open>Outbound formatter\<close>

datatype output_speech =
    PlainText string
  | SSML string

record card =
  content :: string
  title :: json
  card_type :: string

record platform_response =
  card_field :: card
  outputSpeech :: output_speech
  shouldEndSession :: bool

text \<open>
  The body of the \<open>then\<close> callback of \<open>send\<close> up to the construction of
  \<open>response\<close> (lines 120 to 151), in the order the source evaluates it. It gives the
  recipient \<open>to\<close> and the response. \<open>content.startsWith\<close> is a TypeError unless
  \<open>content\<close> is a string.
\<close>

definition build_response :: "json \<Rightarrow> error + (json \<times> platform_response)" where
  "build_response data =
     (case get data ''object'' of Inl e \<Rightarrow> Inl e | Inr obj \<Rightarrow>
      case get obj ''type'' of Inl e \<Rightarrow> Inl e | Inr ty \<Rightarrow>
      if ty \<noteq> JStr ''Note'' then Inl (Error ''Only Note is supported.'')
      else
        let content = js_prop obj ''content'' in
        case get data ''to'' of Inl e \<Rightarrow> Inl e | Inr to_obj \<Rightarrow>
        case get to_obj ''id'' of Inl e \<Rightarrow> Inl e | Inr to \<Rightarrow>
        case content of
          JStr c \<Rightarrow>
            let speech = (if startsWith c ''<speak>'' \<and> endsWith c ''</speak>''
                          then SSML c else PlainText c);
                nm = js_prop obj ''name'';
                crd = \<lparr>content = c,
                       title = (if truthy nm then nm else JStr []),
                       card_type = ''Simple''\<rparr>
            in Inr (to, \<lparr>card_field = crd, outputSpeech = speech, shouldEndSession = True\<rparr>)
        | _ \<Rightarrow> Inl TypeError)"

section \<open>Inbound normalizer\<close>

record message =
  application :: json
  intentName :: json
  messageID :: string
  requestType :: json
  slots :: json
  user :: json

text \<open>
  The first half of \<open>handle\<close> (lines 161 to 177): the message built from
  \<open>req.body\<close>. \<open>uuid4\<close> is the value \<open>uuid.v4()\<close> returns in this call. Reading
  \<open>request.type\<close> or \<open>session.application\<close> throws when \<open>request\<close> or
  \<open>session\<close> is missing; \<open>R.path\<close> does not.
\<close>

definition normalize :: "json \<Rightarrow> string \<Rightarrow> error + message" where
  "normalize body uuid4 =
     (case get body ''request'' of Inl e \<Rightarrow> Inl e | Inr request \<Rightarrow>
      case get body ''session'' of Inl e \<Rightarrow> Inl e | Inr session \<Rightarrow>
      case get request ''type'' of Inl e \<Rightarrow> Inl e | Inr rt \<Rightarrow>
      let iname = (if rt = JStr ''IntentRequest''
                   then path [''intent'', ''name''] request else rt)
      in
      case get session ''application'' of Inl e \<Rightarrow> Inl e | Inr app \<Rightarrow>
      let sl = path [''intent'', ''slots''] request
      in Inr \<lparr>application = app,
              intentName = iname,
              messageID = uuid4,
              requestType = rt,
              slots = (if truthy sl then sl else JObj []),
              user = js_prop session ''user''\<rparr>)"

section \<open>The adapter and its event emitter\<close>

text \<open>
  A listener is a closure. \<open>ResponseListener res\<close> is \<open>(data) => res.json(data)\<close> over
  the response object \<open>res\<close> of one HTTP request (every request has its own).
  \<open>MessageListener n\<close> is the handler that the \<open>n\<close>-th subscription to
  \<open>listen()\<close> attaches through \<open>Observable.fromEvent(this.emitter, 'message')\<close>.
\<close>

datatype listener =
    ResponseListener nat
  | MessageListener nat

datatype payload =
    Message message
  | Response platform_response

datatype http_write =
    SendStatus nat
  | Json payload

text \<open>What the adapter does to the outside, in the order it does it.\<close>

datatype event =
    EmitCall string payload
  | Invoked listener payload
  | OnceCall string listener
  | HttpWrite nat http_write
  | Received nat payload
  | ServerListen
  | ServerClose

datatype registration =
  Registration (reg_name: string) (reg_listener: listener) (reg_once: bool)

datatype http_method = GET | POST

type_synonym router = "(http_method \<times> string) list"

datatype webhook_server = WebHookServer json router json

text \<open>
  The fields of the class, then the environment the handler acts on: the clock in
  milliseconds, the pending \<open>setTimeout\<close> callbacks (each removes a listener from an
  event name when due), the values that the streams of \<open>listen()\<close> have taken in and
  not yet handed to their subscribers, and the trace of events. \<open>connected\<close> is never
  assigned by the constructor: \<open>None\<close> is JavaScript's \<open>undefined\<close>.
\<close>

record adapter =
  serviceID :: json
  connected :: "bool option"
  logLevel :: json
  emitter :: "registration list"
  router :: router
  webhookServer :: "webhook_server option"
  now :: nat
  timers :: "(nat \<times> string \<times> listener) list"
  inbox :: "(nat \<times> payload) list"
  trace :: "event list"

definition record_event :: "event \<Rightarrow> adapter \<Rightarrow> adapter" where
  "record_event e s = s\<lparr>trace := trace s @ [e]\<rparr>"

subsection \<open>Node's EventEmitter\<close>

fun remove_first :: "('a \<Rightarrow> bool) \<Rightarrow> 'a list \<Rightarrow> 'a list" where
  "remove_first P [] = []"
| "remove_first P (x # xs) = (if P x then xs else x # remove_first P xs)"

text \<open>\<open>removeListener\<close> scans the array of the event from its end and removes one entry.\<close>

definition remove_last :: "('a \<Rightarrow> bool) \<Rightarrow> 'a list \<Rightarrow> 'a list" where
  "remove_last P xs = rev (remove_first P (rev xs))"

definition once :: "string \<Rightarrow> listener \<Rightarrow> adapter \<Rightarrow> adapter" where
  "once name l s =
     record_event (OnceCall name l) (s\<lparr>emitter := emitter s @ [Registration name l True]\<rparr>)"

definition removeListener :: "string \<Rightarrow> listener \<Rightarrow> adapter \<Rightarrow> adapter" where
  "removeListener name l s =
     s\<lparr>emitter := remove_last (\<lambda>r. reg_name r = name \<and> reg_listener r = l) (emitter s)\<rparr>"

text \<open>
  Calling a listener. The response listener calls \<open>res.json(data)\<close>; the trace records
  the call. What Express does with a second write to a response that was already sent is
  outside this source file. The handler of a subscription to \<open>listen()\<close> feeds the
  value to the stream (lines 93 to 113), which passes it through promises
  (\<open>Promise.resolve\<close> at lines 100 and 112, after the parser and the validator): the
  value is on its way, in the \<open>inbox\<close>, and reaches the subscriber in a later turn.
\<close>

fun invoke :: "listener \<Rightarrow> payload \<Rightarrow> adapter \<Rightarrow> adapter" where
  "invoke (ResponseListener res) d s =
     record_event (HttpWrite res (Json d)) (record_event (Invoked (ResponseListener res) d) s)"
| "invoke (MessageListener n) d s =
     record_event (Invoked (MessageListener n) d) (s\<lparr>inbox := inbox s @ [(n, d)]\<rparr>)"

text \<open>
  One entry of the copied listener array of \<open>emit\<close>. The wrapper that \<open>once\<close>
  installs removes itself before it calls the listener. Registrations that are equal as
  values are interchangeable, so removing the last equal one stands for removing this one.
\<close>

definition fire :: "payload \<Rightarrow> registration \<Rightarrow> adapter \<Rightarrow> adapter" where
  "fire d r s =
     (if reg_once r
      then invoke (reg_listener r) d (s\<lparr>emitter := remove_last (\<lambda>x. x = r) (emitter s)\<rparr>)
      else invoke (reg_listener r) d s)"

definition emit :: "string \<Rightarrow> payload \<Rightarrow> adapter \<Rightarrow> adapter" where
  "emit name d s =
     fold (fire d) (filter (\<lambda>r. reg_name r = name) (emitter s)) (record_event (EmitCall name d) s)"

definition setTimeout :: "string \<Rightarrow> listener \<Rightarrow> nat \<Rightarrow> adapter \<Rightarrow> adapter" where
  "setTimeout name l delay s = s\<lparr>timers := timers s @ [(now s + delay, name, l)]\<rparr>"

subsection \<open>The class\<close>

text \<open>The event name of a correlation key: \<open>response:\<close> followed by the key.\<close>

definition response_event :: "string \<Rightarrow> string" where
  "response_event key = ''response:'' @ key"

definition setupRouter :: router where
  "setupRouter = [(GET, ''/''), (POST, ''/'')]"

text \<open>\<open>uuid4\<close> is what \<open>uuid.v4()\<close> would return; \<open>obj\<close> is \<open>undefined\<close> when omitted.\<close>

definition constructor :: "json \<Rightarrow> string \<Rightarrow> adapter" where
  "constructor obj uuid4 =
     (let sid = (if truthy obj \<and> truthy (js_prop obj ''serviceID'')
                 then js_prop obj ''serviceID'' else JStr uuid4);
          lvl = (if truthy obj \<and> truthy (js_prop obj ''logLevel'')
                 then js_prop obj ''logLevel'' else JStr ''info'');
          rt = setupRouter
      in \<lparr>serviceID = sid,
          connected = None,
          logLevel = lvl,
          emitter = [],
          router = rt,
          webhookServer = (if truthy obj \<and> truthy (js_prop obj ''http'')
                           then Some (WebHookServer (js_prop obj ''http'') rt lvl) else None),
          now = 0,
          timers = [],
          inbox = [],
          trace = []\<rparr>)"

definition serviceName :: string where
  "serviceName = ''alexa''"

definition getRouter :: "adapter \<Rightarrow> router option" where
  "getRouter s = (case webhookServer s of Some w \<Rightarrow> None | None \<Rightarrow> Some (router s))"

definition serviceId :: "adapter \<Rightarrow> json" where
  "serviceId s = serviceID s"

definition connect :: "adapter \<Rightarrow> json \<times> adapter" where
  "connect s =
     (if connected s = Some True
      then (JObj [(''type'', JStr ''connected''), (''serviceID'', serviceId s)], s)
      else
        let s1 = s\<lparr>connected := Some True\<rparr>;
            s2 = (case webhookServer s1 of Some w \<Rightarrow> record_event ServerListen s1 | None \<Rightarrow> s1)
        in (JObj [(''type'', JStr ''connected''), (''serviceID'', serviceId s2)], s2))"

definition disconnect :: "adapter \<Rightarrow> adapter" where
  "disconnect s =
     (let s1 = s\<lparr>connected := Some False\<rparr>
      in case webhookServer s1 of Some w \<Rightarrow> record_event ServerClose s1 | None \<Rightarrow> s1)"

text \<open>A subscription to \<open>listen()\<close> attaches its handler to the \<open>message\<close> event.\<close>

definition listen :: "nat \<Rightarrow> adapter \<Rightarrow> adapter" where
  "listen n s = s\<lparr>emitter := emitter s @ [Registration ''message'' (MessageListener n) False]\<rparr>"

text \<open>
  \<open>send\<close>. The schema validator is outside this file: \<open>schemas data op\<close> is the error
  it rejects with, or \<open>None\<close> when it accepts. A rejected promise is \<open>Inl\<close>.
\<close>

definition send ::
  "(json \<Rightarrow> string \<Rightarrow> error option) \<Rightarrow> json \<Rightarrow> adapter \<Rightarrow> (error + json) \<times> adapter" where
  "send schemas data s =
     (case schemas data ''send'' of
        Some e \<Rightarrow> (Inl e, s)
      | None \<Rightarrow>
          (case build_response data of
             Inl e \<Rightarrow> (Inl e, s)
           | Inr (to, response) \<Rightarrow>
               (Inr (JObj [(''type'', JStr ''sent''), (''serviceID'', serviceId s)]),
                emit (response_event (template to)) (Response response) s)))"

text \<open>
  The handler that \<open>setupRouter\<close> installs for GET and POST, on the body of the request,
  the response object \<open>res\<close> and the value of \<open>uuid.v4()\<close>. The statements after the
  message is built are in the order of the source (lines 179 to 188).
\<close>

definition handle :: "json \<Rightarrow> nat \<Rightarrow> string \<Rightarrow> adapter \<Rightarrow> error + adapter" where
  "handle body res uuid4 s =
     (case normalize body uuid4 of
        Inl e \<Rightarrow> Inl e
      | Inr msg \<Rightarrow>
          let responseListener = ResponseListener res;
              s1 = emit ''message'' (Message msg) s;
              s2 = once (response_event (messageID msg)) responseListener s1;
              s3 = setTimeout (response_event (messageID msg)) responseListener 60000 s2;
              s4 = record_event (HttpWrite res (SendStatus 200)) s3
          in Inr s4)"

subsection \<open>Running the adapter\<close>

text \<open>
  Time passes by \<open>dt\<close> milliseconds and the callbacks that are due run, oldest first.
  All delays are equal, so the list of timers is in the order they fall due.
\<close>

definition tick :: "nat \<Rightarrow> adapter \<Rightarrow> adapter" where
  "tick dt s =
     (let t = now s + dt;
          due = filter (\<lambda>(d, name, l). d \<le> t) (timers s);
          rest = filter (\<lambda>(d, name, l). \<not> d \<le> t) (timers s)
      in fold (\<lambda>(d, name, l). removeListener name l) due (s\<lparr>now := t, timers := rest\<rparr>))"

text \<open>
  The turn in which the promises of the \<open>i\<close>-th value on its way settle. The value
  leaves the inbox; its subscriber receives the event made from it (\<open>ok\<close>), or nothing
  when the parser or the validator, which are outside this file, rejected or dropped it, or
  when \<open>switchMap\<close> has moved on to a later value.
\<close>

definition resolve :: "nat \<Rightarrow> bool \<Rightarrow> adapter \<Rightarrow> adapter" where
  "resolve i ok s =
     (if i < length (inbox s)
      then
        let s1 = s\<lparr>inbox := take i (inbox s) @ drop (Suc i) (inbox s)\<rparr>
        in if ok then record_event (Received (fst (inbox s ! i)) (snd (inbox s ! i))) s1 else s1
      else s)"

text \<open>
  What can happen to an adapter: an HTTP request reaches the handler (with its body, its
  response object and the value of \<open>uuid.v4()\<close>), a caller uses \<open>send\<close>,
  \<open>connect\<close>, \<open>disconnect\<close> or subscribes to \<open>listen()\<close>, time passes, or
  the promises of a stream settle. A handler that throws leaves the adapter as it was.
\<close>

datatype action =
    Request json nat string
  | Send json
  | Tick nat
  | Connect
  | Disconnect
  | Listen nat
  | Resolve nat bool

fun step :: "(json \<Rightarrow> string \<Rightarrow> error option) \<Rightarrow> action \<Rightarrow> adapter \<Rightarrow> adapter" where
  "step schemas (Request body res uuid4) s =
     (case handle body res uuid4 s of Inl e \<Rightarrow> s | Inr s' \<Rightarrow> s')"
| "step schemas (Send data) s = snd (send schemas data s)"
| "step schemas (Tick dt) s = tick dt s"
| "step schemas Connect s = snd (connect s)"
| "step schemas Disconnect s = disconnect s"
| "step schemas (Listen n) s = listen n s"
| "step schemas (Resolve i ok) s = resolve i ok s"

definition run :: "(json \<Rightarrow> string \<Rightarrow> error option) \<Rightarrow> action list \<Rightarrow> adapter \<Rightarrow> adapter" where
  "run schemas acts s = fold (step schemas) acts s"

section \<open>Observations on a run\<close>

text \<open>The payloads with which the response listener of \<open>res\<close> was called, oldest first.\<close>

definition calls_of :: "nat \<Rightarrow> event list \<Rightarrow> payload list" where
  "calls_of res tr =
     concat (map (\<lambda>e. case e of Invoked l d \<Rightarrow> (if l = ResponseListener res then [d] else [])
                          | _ \<Rightarrow> []) tr)"

text \<open>What was written to the response object \<open>res\<close>, oldest first.\<close>

definition http_writes :: "nat \<Rightarrow> event list \<Rightarrow> http_write list" where
  "http_writes res tr =
     concat (map (\<lambda>e. case e of HttpWrite r w \<Rightarrow> (if r = res then [w] else []) | _ \<Rightarrow> []) tr)"

text \<open>The registrations, under any event name, of the response listener of \<open>res\<close>.\<close>

definition regs_of :: "nat \<Rightarrow> registration list \<Rightarrow> registration list" where
  "regs_of res em = filter (\<lambda>r. reg_listener r = ResponseListener res) em"

text \<open>
  The response object of a request that is about to arrive: its listener does not exist
  yet, so nothing refers to it.
\<close>

definition unused :: "nat \<Rightarrow> adapter \<Rightarrow> bool" where
  "unused res s =
     (regs_of res (emitter s) = [] \<and>
      (\<forall>(d, name, l) \<in> set (timers s). l \<noteq> ResponseListener res) \<and>
      calls_of res (trace s) = [])"

text \<open>An action that would hand the same response object to the handler again.\<close>

fun reuses :: "nat \<Rightarrow> action \<Rightarrow> bool" where
  "reuses res (Request body r uuid4) = (r = res)"
| "reuses res a = False"

text \<open>The correlation key a \<open>send\<close> emits on, when it gets as far as emitting.\<close>

definition recipient :: "(json \<Rightarrow> string \<Rightarrow> error option) \<Rightarrow> json \<Rightarrow> string option" where
  "recipient schemas data =
     (case schemas data ''send'' of
        Some e \<Rightarrow> None
      | None \<Rightarrow> (case build_response data of Inl e \<Rightarrow> None | Inr (to, r) \<Rightarrow> Some (template to)))"

fun delivers_to :: "(json \<Rightarrow> string \<Rightarrow> error option) \<Rightarrow> string \<Rightarrow> action \<Rightarrow> bool" where
  "delivers_to schemas key (Send data) = (recipient schemas data = Some key)"
| "delivers_to schemas key a = False"

text \<open>The time that passes during a list of actions.\<close>

fun elapsed :: "action list \<Rightarrow> nat" where
  "elapsed [] = 0"
| "elapsed (Tick dt # acts) = dt + elapsed acts"
| "elapsed (a # acts) = elapsed acts"

subsection \<open>Auxiliary functions of the proofs\<close>

text \<open>The events that calling one listener adds to the trace.\<close>

fun reaction :: "payload \<Rightarrow> listener \<Rightarrow> event list" where
  "reaction d (ResponseListener res) = [Invoked (ResponseListener res) d, HttpWrite res (Json d)]"
| "reaction d (MessageListener n) = [Invoked (MessageListener n) d]"

text \<open>The values that calling one listener puts on their way to a subscriber.\<close>

fun delivery :: "payload \<Rightarrow> listener \<Rightarrow> (nat \<times> payload) list" where
  "delivery d (MessageListener n) = [(n, d)]"
| "delivery d (ResponseListener res) = []"

text \<open>What firing one entry of the copied array does to the listener array.\<close>

definition unregister :: "registration \<Rightarrow> registration list \<Rightarrow> registration list" where
  "unregister r em = (if reg_once r then remove_last (\<lambda>x. x = r) em else em)"

text \<open>What one due timer does to the listener array.\<close>

definition expire :: "nat \<times> string \<times> listener \<Rightarrow> registration list \<Rightarrow> registration list" where
  "expire t em = (case t of (d, name, l) \<Rightarrow> remove_last (\<lambda>r. reg_name r = name \<and> reg_listener r = l) em)"

text \<open>
  The invariant of a request that arrived at time \<open>t0\<close> and has not been answered:
  until its timer is due, its listener is registered exactly once, under the event of its
  key, and the timer is pending; afterwards the listener is gone. It was never called.
\<close>

definition awaiting :: "nat \<Rightarrow> string \<Rightarrow> nat \<Rightarrow> adapter \<Rightarrow> bool" where
  "awaiting t0 key res s =
     ((\<forall>(d, name, l) \<in> set (timers s).
         l = ResponseListener res \<longrightarrow> d = t0 + 60000 \<and> name = response_event key) \<and>
      (if now s < t0 + 60000
       then regs_of res (emitter s) = [Registration (response_event key) (ResponseListener res) True] \<and>
            (t0 + 60000, response_event key, ResponseListener res) \<in> set (timers s)
       else regs_of res (emitter s) = []) \<and>
      calls_of res (trace s) = [])"

text \<open>
  In a trace, the message \<open>m\<close> was published on \<open>message\<close> and after that a
  listener was registered under the event of its key.
\<close>

definition is_once_for :: "message \<Rightarrow> event \<Rightarrow> bool" where
  "is_once_for m e =
     (case e of OnceCall name l \<Rightarrow> name = response_event (messageID m) | _ \<Rightarrow> False)"

fun registered :: "message \<Rightarrow> event list \<Rightarrow> bool" where
  "registered m [] = False"
| "registered m (e # es) =
     ((e = EmitCall ''message'' (Message m) \<and> list_ex (is_once_for m) es) \<or> registered m es)"

text \<open>
  The invariant of the order of events: a message on its way to a subscriber, and a message
  that a subscriber received, was published and registered before.
\<close>

definition orderly :: "adapter \<Rightarrow> bool" where
  "orderly s =
     ((\<forall>n m. (n, Message m) \<in> set (inbox s) \<longrightarrow> registered m (trace s)) \<and>
      (\<forall>xs n m ys. trace s = xs @ Received n (Message m) # ys \<longrightarrow> registered m xs))"

subsection \<open>The speech branch as the specification words it\<close>

text \<open>
  Section 4.3 of the specification classifies the trimmed text of the content. The
  definitions below follow that wording, for comparison with \<open>build_response\<close>.
  \<open>trim\<close> removes the white space and line terminators of the ASCII range from both
  ends, as \<open>String.prototype.trim\<close> does.
\<close>

definition is_whitespace :: "char \<Rightarrow> bool" where
  "is_whitespace ch = (ch \<in> set [CHR '' '', CHR 0x09, CHR 0x0A, CHR 0x0B, CHR 0x0C, CHR 0x0D])"

definition trim :: "string \<Rightarrow> string" where
  "trim c = rev (dropWhile is_whitespace (rev (dropWhile is_whitespace c)))"

definition classify_trimmed :: "string \<Rightarrow> output_speech" where
  "classify_trimmed c =
     (if startsWith (trim c) ''<speak>'' \<and> endsWith (trim c) ''</speak>''
      then SSML c else PlainText c)"

subsection \<open>Example inputs\<close>

text \<open>
  A schema validator that accepts everything, and the inputs of the scenarios of section 8
  of the specification.
\<close>

definition accept :: "json \<Rightarrow> string \<Rightarrow> error option" where
  "accept data opn = None"


definition hello_body :: json where
  "hello_body =
     JObj [(''request'', JObj [(''type'', JStr ''IntentRequest''),
                               (''intent'', JObj [(''name'', JStr ''Hello''), (''slots'', JObj [])])]),
           (''session'', JObj [(''application'', JObj [(''id'', JStr ''a'')]),
                               (''user'', JObj [(''id'', JStr ''u'')])])]"

definition hello_message :: "string \<Rightarrow> message" where
  "hello_message key =
     \<lparr>application = JObj [(''id'', JStr ''a'')],
      intentName = JStr ''Hello'',
      messageID = key,
      requestType = JStr ''IntentRequest'',
      slots = JObj [],
      user = JObj [(''id'', JStr ''u'')]\<rparr>"

definition note_command :: "string \<Rightarrow> string \<Rightarrow> json" where
  "note_command key c =
     JObj [(''to'', JObj [(''id'', JStr key)]),
           (''object'', JObj [(''type'', JStr ''Note''), (''content'', JStr c)])]"

definition plain_response :: "string \<Rightarrow> platform_response" where
  "plain_response c =
     \<lparr>card_field = \<lparr>content = c, title = JStr [], card_type = ''Simple''\<rparr>,
      outputSpeech = PlainText c,
      shouldEndSession = True\<rparr>"

definition bare_intent_body :: json where
  "bare_intent_body =
     JObj [(''request'', JObj [(''type'', JStr ''IntentRequest'')]), (''session'', JObj [])]"


definition ssml_response :: "string \<Rightarrow> platform_response" where
  "ssml_response c =
     \<lparr>card_field = \<lparr>content = c, title = JStr [], card_type = ''Simple''\<rparr>,
      outputSpeech = SSML c,
      shouldEndSession = True\<rparr>"

section \<open>Properties of the model\<close>

subsection \<open>Strings\<close>

lemma startsWith_iff: "startsWith c p \<longleftrightarrow> (\<exists>t. c = p @ t)"
proof
  assume "startsWith c p"
  then have "c = p @ drop (length p) c"
    by (metis append_take_drop_id startsWith_def)
  then show "\<exists>t. c = p @ t" ..
next
  assume "\<exists>t. c = p @ t"
  then show "startsWith c p" by (auto simp: startsWith_def)
qed

lemma endsWith_iff: "endsWith c p \<longleftrightarrow> (\<exists>t. c = t @ p)"
proof
  assume "endsWith c p"
  then have "c = take (length c - length p) c @ p"
    by (metis append_take_drop_id endsWith_def)
  then show "\<exists>t. c = t @ p" ..
next
  assume "\<exists>t. c = t @ p"
  then show "endsWith c p" by (auto simp: endsWith_def)
qed

subsection \<open>Removing from a list\<close>

lemma filter_remove_first_in:
  "(\<And>x. Q x \<Longrightarrow> P x) \<Longrightarrow> filter P (remove_first Q xs) = remove_first Q (filter P xs)"
  by (induction xs) auto

lemma filter_remove_first_out:
  "(\<And>x. Q x \<Longrightarrow> \<not> P x) \<Longrightarrow> filter P (remove_first Q xs) = filter P xs"
  by (induction xs) auto

lemma filter_remove_last_in:
  "(\<And>x. Q x \<Longrightarrow> P x) \<Longrightarrow> filter P (remove_last Q xs) = remove_last Q (filter P xs)"
  by (simp add: remove_last_def rev_filter [symmetric] filter_remove_first_in)

lemma filter_remove_last_out:
  "(\<And>x. Q x \<Longrightarrow> \<not> P x) \<Longrightarrow> filter P (remove_last Q xs) = filter P xs"
  by (simp add: remove_last_def rev_filter [symmetric] filter_remove_first_out)

lemma remove_last_Nil [simp]: "remove_last Q [] = []"
  by (simp add: remove_last_def)

lemma remove_last_single [simp]: "remove_last Q [x] = (if Q x then [] else [x])"
  by (simp add: remove_last_def)

lemma filter_unregister:
  "filter P (unregister r em) = (if P r then unregister r (filter P em) else filter P em)"
proof (cases "P r")
  case True
  then have "filter P (remove_last (\<lambda>x. x = r) em) = remove_last (\<lambda>x. x = r) (filter P em)"
    by (intro filter_remove_last_in) simp
  with True show ?thesis by (simp add: unregister_def)
next
  case False
  then have "filter P (remove_last (\<lambda>x. x = r) em) = filter P em"
    by (intro filter_remove_last_out) simp
  with False show ?thesis by (simp add: unregister_def)
qed

lemma filter_fold_unregister:
  "filter P (fold unregister rs em) = fold unregister (filter P rs) (filter P em)"
  by (induction rs arbitrary: em) (simp_all add: filter_unregister)

subsection \<open>Reading the trace\<close>

lemma calls_of_simps [simp]:
  "calls_of res [] = []"
  "calls_of res (xs @ ys) = calls_of res xs @ calls_of res ys"
  "calls_of res (Invoked l d # es) = (if l = ResponseListener res then d # calls_of res es else calls_of res es)"
  "calls_of res (EmitCall name d # es) = calls_of res es"
  "calls_of res (OnceCall name l # es) = calls_of res es"
  "calls_of res (HttpWrite r w # es) = calls_of res es"
  "calls_of res (Received n d # es) = calls_of res es"
  "calls_of res (ServerListen # es) = calls_of res es"
  "calls_of res (ServerClose # es) = calls_of res es"
  by (simp_all add: calls_of_def)

lemma http_writes_simps [simp]:
  "http_writes res [] = []"
  "http_writes res (xs @ ys) = http_writes res xs @ http_writes res ys"
  "http_writes res (HttpWrite r w # es) = (if r = res then w # http_writes res es else http_writes res es)"
  "http_writes res (EmitCall name d # es) = http_writes res es"
  "http_writes res (OnceCall name l # es) = http_writes res es"
  "http_writes res (Invoked l d # es) = http_writes res es"
  "http_writes res (Received n d # es) = http_writes res es"
  "http_writes res (ServerListen # es) = http_writes res es"
  "http_writes res (ServerClose # es) = http_writes res es"
  by (simp_all add: http_writes_def)

subsection \<open>What each operation changes\<close>

lemma invoke_fields:
  "trace (invoke l d s) = trace s @ reaction d l"
  "emitter (invoke l d s) = emitter s"
  "timers (invoke l d s) = timers s"
  "now (invoke l d s) = now s"
  "webhookServer (invoke l d s) = webhookServer s"
  "router (invoke l d s) = router s"
  "serviceID (invoke l d s) = serviceID s"
  "inbox (invoke l d s) = inbox s @ delivery d l"
  by (cases l; simp add: record_event_def)+

lemma fire_fields:
  "trace (fire d r s) = trace s @ reaction d (reg_listener r)"
  "emitter (fire d r s) = unregister r (emitter s)"
  "timers (fire d r s) = timers s"
  "now (fire d r s) = now s"
  "webhookServer (fire d r s) = webhookServer s"
  "router (fire d r s) = router s"
  "serviceID (fire d r s) = serviceID s"
  "inbox (fire d r s) = inbox s @ delivery d (reg_listener r)"
  by (simp_all add: fire_def invoke_fields unregister_def)

lemma fold_fire_fields:
  "trace (fold (fire d) rs s) = trace s @ concat (map (\<lambda>r. reaction d (reg_listener r)) rs)"
  "emitter (fold (fire d) rs s) = fold unregister rs (emitter s)"
  "timers (fold (fire d) rs s) = timers s"
  "now (fold (fire d) rs s) = now s"
  "webhookServer (fold (fire d) rs s) = webhookServer s"
  "router (fold (fire d) rs s) = router s"
  "serviceID (fold (fire d) rs s) = serviceID s"
  "inbox (fold (fire d) rs s) = inbox s @ concat (map (\<lambda>r. delivery d (reg_listener r)) rs)"
  by (induction rs arbitrary: s; simp add: fire_fields)+

lemma emit_fields:
  "trace (emit name d s) =
     trace s @ EmitCall name d #
       concat (map (\<lambda>r. reaction d (reg_listener r)) (filter (\<lambda>r. reg_name r = name) (emitter s)))"
  "emitter (emit name d s) = fold unregister (filter (\<lambda>r. reg_name r = name) (emitter s)) (emitter s)"
  "timers (emit name d s) = timers s"
  "now (emit name d s) = now s"
  "webhookServer (emit name d s) = webhookServer s"
  "router (emit name d s) = router s"
  "serviceID (emit name d s) = serviceID s"
  "inbox (emit name d s) =
     inbox s @ concat (map (\<lambda>r. delivery d (reg_listener r)) (filter (\<lambda>r. reg_name r = name) (emitter s)))"
  by (simp_all add: emit_def fold_fire_fields record_event_def)

lemma fold_removeListener_fields:
  "emitter (fold (\<lambda>(d, name, l). removeListener name l) ts s) = fold expire ts (emitter s)"
  "trace (fold (\<lambda>(d, name, l). removeListener name l) ts s) = trace s"
  "now (fold (\<lambda>(d, name, l). removeListener name l) ts s) = now s"
  "timers (fold (\<lambda>(d, name, l). removeListener name l) ts s) = timers s"
  "webhookServer (fold (\<lambda>(d, name, l). removeListener name l) ts s) = webhookServer s"
  "router (fold (\<lambda>(d, name, l). removeListener name l) ts s) = router s"
  "inbox (fold (\<lambda>(d, name, l). removeListener name l) ts s) = inbox s"
  by (induction ts arbitrary: s; simp add: removeListener_def expire_def split: prod.splits)+

lemma tick_fields:
  "emitter (tick dt s) = fold expire (filter (\<lambda>(d, name, l). d \<le> now s + dt) (timers s)) (emitter s)"
  "trace (tick dt s) = trace s"
  "now (tick dt s) = now s + dt"
  "timers (tick dt s) = filter (\<lambda>(d, name, l). \<not> d \<le> now s + dt) (timers s)"
  "webhookServer (tick dt s) = webhookServer s"
  "router (tick dt s) = router s"
  "inbox (tick dt s) = inbox s"
  by (simp_all add: tick_def Let_def fold_removeListener_fields)

lemma handle_fields:
  assumes "handle body res key s = Inr s1"
  obtains msg where
    "normalize body key = Inr msg"
    "messageID msg = key"
    "emitter s1 = emitter (emit ''message'' (Message msg) s) @
                    [Registration (response_event key) (ResponseListener res) True]"
    "trace s1 = trace (emit ''message'' (Message msg) s) @
                  [OnceCall (response_event key) (ResponseListener res), HttpWrite res (SendStatus 200)]"
    "timers s1 = timers s @ [(now s + 60000, response_event key, ResponseListener res)]"
    "now s1 = now s"
    "webhookServer s1 = webhookServer s"
    "router s1 = router s"
    "inbox s1 = inbox (emit ''message'' (Message msg) s)"
proof -
  from assms obtain msg where n: "normalize body key = Inr msg"
    by (auto simp: handle_def split: sum.splits)
  have k: "messageID msg = key"
    using n by (auto simp: normalize_def Let_def split: sum.splits)
  from assms n k have s1: "s1 = record_event (HttpWrite res (SendStatus 200))
      (setTimeout (response_event key) (ResponseListener res) 60000
        (once (response_event key) (ResponseListener res) (emit ''message'' (Message msg) s)))"
    by (simp add: handle_def Let_def)
  show thesis
    by (rule that [OF n k]) (simp_all add: s1 record_event_def setTimeout_def once_def emit_fields)
qed

lemma connect_fields:
  "emitter (snd (connect s)) = emitter s"
  "timers (snd (connect s)) = timers s"
  "now (snd (connect s)) = now s"
  "webhookServer (snd (connect s)) = webhookServer s"
  "router (snd (connect s)) = router s"
  "calls_of res (trace (snd (connect s))) = calls_of res (trace s)"
  "inbox (snd (connect s)) = inbox s"
  by (simp_all add: connect_def Let_def record_event_def split: option.splits)

lemma disconnect_fields:
  "emitter (disconnect s) = emitter s"
  "timers (disconnect s) = timers s"
  "now (disconnect s) = now s"
  "webhookServer (disconnect s) = webhookServer s"
  "router (disconnect s) = router s"
  "calls_of res (trace (disconnect s)) = calls_of res (trace s)"
  "inbox (disconnect s) = inbox s"
  by (simp_all add: disconnect_def Let_def record_event_def split: option.splits)

lemma listen_fields:
  "regs_of res (emitter (listen n s)) = regs_of res (emitter s)"
  "timers (listen n s) = timers s"
  "now (listen n s) = now s"
  "webhookServer (listen n s) = webhookServer s"
  "router (listen n s) = router s"
  "trace (listen n s) = trace s"
  "inbox (listen n s) = inbox s"
  by (simp_all add: listen_def regs_of_def)

lemma resolve_fields:
  "emitter (resolve i ok s) = emitter s"
  "timers (resolve i ok s) = timers s"
  "now (resolve i ok s) = now s"
  "webhookServer (resolve i ok s) = webhookServer s"
  "router (resolve i ok s) = router s"
  "calls_of res (trace (resolve i ok s)) = calls_of res (trace s)"
  by (simp_all add: resolve_def Let_def record_event_def)

lemma request_step:
  assumes "normalize body key = Inr msg"
  obtains s1 where "handle body res key s = Inr s1" "step schemas (Request body res key) s = s1"
  using assms by (simp add: handle_def Let_def)

lemma send_success:
  assumes "send schemas data s = (Inr v, s')"
  obtains to resp where "schemas data ''send'' = None" "build_response data = Inr (to, resp)"
    "s' = emit (response_event (template to)) (Response resp) s"
  using assms by (auto simp: send_def split: option.splits sum.splits)

lemma get_Inr: "get v k = Inr x \<Longrightarrow> x = js_prop v k"
  by (simp add: get_def split: if_splits)

lemma build_response_success:
  assumes "build_response data = Inr (to, resp)"
  obtains c where "js_prop (js_prop data ''object'') ''type'' = JStr ''Note''"
    "js_prop (js_prop data ''object'') ''content'' = JStr c"
    "to = js_prop (js_prop data ''to'') ''id''"
    "outputSpeech resp =
       (if startsWith c ''<speak>'' \<and> endsWith c ''</speak>'' then SSML c else PlainText c)"
    "content (card_field resp) = c"
    "shouldEndSession resp"
proof -
  obtain obj where o: "get data ''object'' = Inr obj"
    using assms by (cases "get data ''object''") (simp_all add: build_response_def)
  obtain ty where t: "get obj ''type'' = Inr ty"
    using assms o by (cases "get obj ''type''") (simp_all add: build_response_def)
  have n: "ty = JStr ''Note''"
    using assms o t by (simp add: build_response_def split: if_splits)
  obtain to_obj where d: "get data ''to'' = Inr to_obj"
    using assms o t n by (cases "get data ''to''") (simp_all add: build_response_def)
  obtain to' where i: "get to_obj ''id'' = Inr to'"
    using assms o t n d by (cases "get to_obj ''id''") (simp_all add: build_response_def)
  obtain c where c: "js_prop obj ''content'' = JStr c"
    using assms o t n d i by (cases "js_prop obj ''content''") (simp_all add: build_response_def)
  have r: "to = to'"
    "resp = \<lparr>card_field = \<lparr>content = c,
                             title = (if truthy (js_prop obj ''name'') then js_prop obj ''name'' else JStr []),
                             card_type = ''Simple''\<rparr>,
             outputSpeech = (if startsWith c ''<speak>'' \<and> endsWith c ''</speak>''
                             then SSML c else PlainText c),
             shouldEndSession = True\<rparr>"
    using assms o t n d i c by (simp_all add: build_response_def Let_def)
  have obj: "obj = js_prop data ''object''" using o by (rule get_Inr)
  have "js_prop (js_prop data ''object'') ''type'' = JStr ''Note''"
    using get_Inr [OF t] n obj by simp
  moreover have "js_prop (js_prop data ''object'') ''content'' = JStr c"
    using c obj by simp
  moreover have "to = js_prop (js_prop data ''to'') ''id''"
    using r(1) get_Inr [OF d] get_Inr [OF i] by simp
  ultimately show thesis
    by (rule that) (simp_all add: r(2))
qed

lemma run_Cons:
  "run schemas (a # acts) s = run schemas acts (step schemas a s)"
  by (simp add: run_def)

lemma run_Nil:
  "run schemas [] s = s"
  by (simp add: run_def)

lemma run_append:
  "run schemas (xs @ ys) s = run schemas ys (run schemas xs s)"
  by (simp add: run_def)

lemma now_step:
  "now (step schemas a s) = now s + elapsed [a]"
proof (cases a)
  case (Request body r uuid4)
  show ?thesis
  proof (cases "handle body r uuid4 s")
    case (Inl e)
    with Request show ?thesis by simp
  next
    case (Inr s1)
    then have "now s1 = now s" by (rule handle_fields)
    with Request Inr show ?thesis by simp
  qed
next
  case (Send data)
  then show ?thesis
    by (simp add: send_def emit_fields split: option.splits sum.splits prod.splits)
next
  case (Tick dt)
  then show ?thesis by (simp add: tick_fields)
next
  case Connect
  then show ?thesis by (simp add: connect_fields)
next
  case Disconnect
  then show ?thesis by (simp add: disconnect_fields)
next
  case (Listen n)
  then show ?thesis by (simp add: listen_fields)
next
  case (Resolve i ok)
  then show ?thesis by (simp add: resolve_fields)
qed

lemma now_run:
  "now (run schemas acts s) = now s + elapsed acts"
proof (induction acts arbitrary: s)
  case Nil
  show ?case by (simp add: run_def)
next
  case (Cons a acts)
  have "now (run schemas (a # acts) s) = now (run schemas acts (step schemas a s))"
    by (simp add: run_def)
  also have "\<dots> = now s + elapsed [a] + elapsed acts"
    by (simp add: Cons now_step)
  also have "\<dots> = now s + elapsed (a # acts)"
    by (cases a) simp_all
  finally show ?case .
qed

lemma step_keeps_server:
  "webhookServer (step schemas a s) = webhookServer s \<and> router (step schemas a s) = router s"
proof (cases a)
  case (Request body r uuid4)
  show ?thesis
  proof (cases "handle body r uuid4 s")
    case (Inl e)
    with Request show ?thesis by simp
  next
    case (Inr s1)
    then obtain msg where "webhookServer s1 = webhookServer s" "router s1 = router s"
      by (rule handle_fields)
    with Request Inr show ?thesis by simp
  qed
next
  case (Send data)
  then show ?thesis
    by (simp add: send_def emit_fields split: option.splits sum.splits prod.splits)
next
  case (Tick dt)
  then show ?thesis by (simp add: tick_fields)
next
  case Connect
  then show ?thesis by (simp add: connect_fields)
next
  case Disconnect
  then show ?thesis by (simp add: disconnect_fields)
next
  case (Listen n)
  then show ?thesis by (simp add: listen_fields)
next
  case (Resolve i ok)
  then show ?thesis by (simp add: resolve_fields)
qed

lemma run_keeps_server:
  "webhookServer (run schemas acts s) = webhookServer s \<and> router (run schemas acts s) = router s"
proof (induction acts arbitrary: s)
  case Nil
  show ?case by (simp add: run_Nil)
next
  case (Cons a acts)
  then show ?case by (simp add: run_Cons step_keeps_server del: step.simps)
qed

lemma constructor_fields:
  "webhookServer (constructor obj uuid4) =
     (if truthy obj \<and> truthy (js_prop obj ''http'')
      then Some (WebHookServer (js_prop obj ''http'') setupRouter
                  (if truthy obj \<and> truthy (js_prop obj ''logLevel'')
                   then js_prop obj ''logLevel'' else JStr ''info''))
      else None)"
  "router (constructor obj uuid4) = setupRouter"
  by (simp_all add: constructor_def Let_def)

subsection \<open>The listener of one response object\<close>

lemma response_event_inject [simp]:
  "response_event a = response_event b \<longleftrightarrow> a = b"
  by (simp add: response_event_def)

lemma response_event_not_message [simp]:
  "response_event a \<noteq> ''message''" "''message'' \<noteq> response_event a"
  by (simp_all add: response_event_def)

lemma calls_of_reactions:
  "calls_of res (concat (map (\<lambda>r. reaction d (reg_listener r)) rs)) =
     map (\<lambda>r. d) (regs_of res rs)"
proof (induction rs)
  case Nil
  show ?case by (simp add: regs_of_def)
next
  case (Cons r rs)
  then show ?case by (cases "reg_listener r") (auto simp: regs_of_def)
qed

lemma regs_of_filter_name:
  "regs_of res (filter (\<lambda>r. reg_name r = name) em) = filter (\<lambda>r. reg_name r = name) (regs_of res em)"
  by (induction em) (auto simp: regs_of_def)

lemma emit_regs_of:
  "regs_of res (emitter (emit name d s)) =
     fold unregister (filter (\<lambda>r. reg_name r = name) (regs_of res (emitter s))) (regs_of res (emitter s))"
  by (simp add: emit_fields regs_of_filter_name [symmetric])
     (simp add: regs_of_def filter_fold_unregister)

lemma emit_calls_of:
  "calls_of res (trace (emit name d s)) =
     calls_of res (trace s) @ map (\<lambda>r. d) (filter (\<lambda>r. reg_name r = name) (regs_of res (emitter s)))"
  by (simp add: emit_fields calls_of_reactions regs_of_filter_name)

lemma emit_without_registration:
  assumes "regs_of res (emitter s) = []"
  shows "regs_of res (emitter (emit name d s)) = []"
    and "calls_of res (trace (emit name d s)) = calls_of res (trace s)"
  using assms by (simp_all add: emit_regs_of emit_calls_of)

lemma emit_other_channel:
  assumes "regs_of res (emitter s) = [Registration chan (ResponseListener res) True]"
    and "name \<noteq> chan"
  shows "regs_of res (emitter (emit name d s)) = regs_of res (emitter s)"
    and "calls_of res (trace (emit name d s)) = calls_of res (trace s)"
  using assms by (simp_all add: emit_regs_of emit_calls_of)

lemma emit_own_channel:
  assumes "regs_of res (emitter s) = [Registration chan (ResponseListener res) True]"
  shows "regs_of res (emitter (emit chan d s)) = []"
    and "calls_of res (trace (emit chan d s)) = calls_of res (trace s) @ [d]"
  using assms by (simp_all add: emit_regs_of emit_calls_of unregister_def)

lemma regs_of_expire:
  "regs_of res (expire (d, name, l) em) =
     (if l = ResponseListener res then expire (d, name, l) (regs_of res em) else regs_of res em)"
proof (cases "l = ResponseListener res")
  case True
  then have "filter (\<lambda>r. reg_listener r = ResponseListener res)
               (remove_last (\<lambda>r. reg_name r = name \<and> reg_listener r = l) em) =
             remove_last (\<lambda>r. reg_name r = name \<and> reg_listener r = l)
               (filter (\<lambda>r. reg_listener r = ResponseListener res) em)"
    by (intro filter_remove_last_in) simp
  with True show ?thesis by (simp add: regs_of_def expire_def)
next
  case False
  then have "filter (\<lambda>r. reg_listener r = ResponseListener res)
               (remove_last (\<lambda>r. reg_name r = name \<and> reg_listener r = l) em) =
             filter (\<lambda>r. reg_listener r = ResponseListener res) em"
    by (intro filter_remove_last_out) simp
  with False show ?thesis by (simp add: regs_of_def expire_def)
qed

lemma regs_of_fold_expire_none:
  assumes "regs_of res em = []"
  shows "regs_of res (fold expire ts em) = []"
  using assms
proof (induction ts arbitrary: em)
  case Nil
  then show ?case by simp
next
  case (Cons t ts)
  obtain d name l where t: "t = (d, name, l)" by (cases t) auto
  have "regs_of res (expire t em) = []"
    using Cons.prems by (simp add: t regs_of_expire) (simp add: expire_def)
  then show ?case using Cons.IH by simp
qed

lemma regs_of_fold_expire_others:
  assumes "\<forall>(d, name, l) \<in> set ts. l \<noteq> ResponseListener res"
  shows "regs_of res (fold expire ts em) = regs_of res em"
  using assms
proof (induction ts arbitrary: em)
  case Nil
  then show ?case by simp
next
  case (Cons t ts)
  obtain d name l where t: "t = (d, name, l)" by (cases t) auto
  have "regs_of res (expire t em) = regs_of res em"
    using Cons.prems by (simp add: t regs_of_expire)
  then show ?case using Cons by simp
qed

lemma regs_of_fold_expire_own:
  assumes "regs_of res em = [Registration chan (ResponseListener res) True]"
    and "(d, chan, ResponseListener res) \<in> set ts"
    and "\<forall>(d', name, l) \<in> set ts. l = ResponseListener res \<longrightarrow> name = chan"
  shows "regs_of res (fold expire ts em) = []"
  using assms
proof (induction ts arbitrary: em)
  case Nil
  then show ?case by simp
next
  case (Cons t ts)
  obtain d' name l where t: "t = (d', name, l)" by (cases t) auto
  show ?case
  proof (cases "l = ResponseListener res")
    case True
    then have "name = chan" using Cons.prems(3) by (simp add: t)
    with True have "regs_of res (expire t em) = []"
      using Cons.prems(1) by (simp add: t regs_of_expire) (simp add: expire_def)
    then show ?thesis by (simp add: regs_of_fold_expire_none)
  next
    case False
    then have "regs_of res (expire t em) = regs_of res em"
      by (simp add: t regs_of_expire)
    moreover have "(d, chan, ResponseListener res) \<in> set ts"
      using Cons.prems(2) False by (auto simp: t)
    ultimately show ?thesis using Cons.IH Cons.prems by simp
  qed
qed

subsection \<open>A pending request stays pending until its timer is due\<close>

lemma handle_awaiting:
  assumes "unused res s" and "handle body res key s = Inr s1"
  shows "awaiting (now s) key res s1"
proof -
  from assms(2) obtain msg where
    em: "emitter s1 = emitter (emit ''message'' (Message msg) s) @
                    [Registration (response_event key) (ResponseListener res) True]"
    and tr: "trace s1 = trace (emit ''message'' (Message msg) s) @
                  [OnceCall (response_event key) (ResponseListener res), HttpWrite res (SendStatus 200)]"
    and ti: "timers s1 = timers s @ [(now s + 60000, response_event key, ResponseListener res)]"
    and no: "now s1 = now s"
    by (rule handle_fields)
  from assms(1) have r: "regs_of res (emitter s) = []"
    and t: "\<forall>(d, name, l) \<in> set (timers s). l \<noteq> ResponseListener res"
    and c: "calls_of res (trace s) = []"
    by (simp_all add: unused_def)
  have "regs_of res (emitter s1) = [Registration (response_event key) (ResponseListener res) True]"
    using emit_without_registration(1) [OF r] by (simp add: em regs_of_def)
  moreover have "calls_of res (trace s1) = []"
    using emit_without_registration(2) [OF r] c by (simp add: tr)
  moreover have "\<forall>(d, name, l) \<in> set (timers s1).
         l = ResponseListener res \<longrightarrow> d = now s + 60000 \<and> name = response_event key"
    using t by (auto simp: ti)
  ultimately show ?thesis by (simp add: awaiting_def no ti)
qed

lemma awaiting_regs:
  assumes "awaiting t0 key res s"
  shows "regs_of res (emitter s) = [] \<or>
         regs_of res (emitter s) = [Registration (response_event key) (ResponseListener res) True]"
  using assms by (auto simp: awaiting_def split: if_splits)

lemma awaiting_emit:
  assumes "awaiting t0 key res s" and "name \<noteq> response_event key"
  shows "awaiting t0 key res (emit name d s)"
proof -
  have "regs_of res (emitter (emit name d s)) = regs_of res (emitter s) \<and>
        calls_of res (trace (emit name d s)) = calls_of res (trace s)"
    using awaiting_regs [OF assms(1)] assms(2)
    by (auto simp: emit_without_registration emit_other_channel)
  moreover have "timers (emit name d s) = timers s" "now (emit name d s) = now s"
    by (simp_all add: emit_fields)
  ultimately show ?thesis using assms(1) by (simp add: awaiting_def)
qed

lemma awaiting_request:
  assumes "awaiting t0 key res s" and "r \<noteq> res"
  shows "awaiting t0 key res (step schemas (Request body r uuid4) s)"
proof (cases "handle body r uuid4 s")
  case (Inl e)
  with assms(1) show ?thesis by simp
next
  case (Inr s1)
  then obtain msg where
    em: "emitter s1 = emitter (emit ''message'' (Message msg) s) @
                    [Registration (response_event uuid4) (ResponseListener r) True]"
    and tr: "trace s1 = trace (emit ''message'' (Message msg) s) @
                  [OnceCall (response_event uuid4) (ResponseListener r), HttpWrite r (SendStatus 200)]"
    and ti: "timers s1 = timers s @ [(now s + 60000, response_event uuid4, ResponseListener r)]"
    and no: "now s1 = now s"
    by (rule handle_fields)
  have a: "awaiting t0 key res (emit ''message'' (Message msg) s)"
    using assms(1) by (rule awaiting_emit) simp
  have f: "timers (emit ''message'' (Message msg) s) = timers s"
    "now (emit ''message'' (Message msg) s) = now s"
    by (simp_all add: emit_fields)
  have "regs_of res (emitter s1) = regs_of res (emitter (emit ''message'' (Message msg) s))"
    using assms(2) by (simp add: em regs_of_def)
  moreover have "calls_of res (trace s1) = calls_of res (trace (emit ''message'' (Message msg) s))"
    by (simp add: tr)
  ultimately have "awaiting t0 key res s1"
    using a assms(2) by (auto simp: awaiting_def ti no f)
  with Inr show ?thesis by simp
qed

lemma awaiting_send:
  assumes "awaiting t0 key res s" and "recipient schemas data \<noteq> Some key"
  shows "awaiting t0 key res (step schemas (Send data) s)"
proof (cases "schemas data ''send''")
  case (Some e)
  with assms(1) show ?thesis by (simp add: send_def)
next
  case None
  show ?thesis
  proof (cases "build_response data")
    case (Inl e)
    with None assms(1) show ?thesis by (simp add: send_def)
  next
    case (Inr p)
    obtain to resp where p: "p = (to, resp)" by (cases p) auto
    from assms(2) None Inr p have "template to \<noteq> key" by (simp add: recipient_def)
    then have "awaiting t0 key res (emit (response_event (template to)) (Response resp) s)"
      using assms(1) by (intro awaiting_emit) simp_all
    with None Inr p show ?thesis by (simp add: send_def)
  qed
qed

lemma awaiting_tick:
  assumes "awaiting t0 key res s"
  shows "awaiting t0 key res (step schemas (Tick dt) s)"
proof -
  let ?chan = "response_event key"
  let ?due = "filter (\<lambda>(d, name, l). d \<le> now s + dt) (timers s)"
  from assms have ours: "\<forall>(d, name, l) \<in> set (timers s).
         l = ResponseListener res \<longrightarrow> d = t0 + 60000 \<and> name = ?chan"
    and calls: "calls_of res (trace s) = []"
    by (simp_all add: awaiting_def)
  have rest: "\<forall>(d, name, l) \<in> set (timers (tick dt s)).
         l = ResponseListener res \<longrightarrow> d = t0 + 60000 \<and> name = ?chan"
    using ours by (auto simp: tick_fields)
  have regs: "if now s + dt < t0 + 60000
       then regs_of res (emitter (tick dt s)) = [Registration ?chan (ResponseListener res) True] \<and>
            (t0 + 60000, ?chan, ResponseListener res) \<in> set (timers (tick dt s))
       else regs_of res (emitter (tick dt s)) = []"
  proof (cases "now s + dt < t0 + 60000")
    case True
    then have before: "now s < t0 + 60000" by simp
    with assms have r: "regs_of res (emitter s) = [Registration ?chan (ResponseListener res) True]"
      and t: "(t0 + 60000, ?chan, ResponseListener res) \<in> set (timers s)"
      by (simp_all add: awaiting_def)
    have "\<forall>(d, name, l) \<in> set ?due. l \<noteq> ResponseListener res"
      using ours True by auto
    then have "regs_of res (fold expire ?due (emitter s)) = regs_of res (emitter s)"
      by (rule regs_of_fold_expire_others)
    with True r t show ?thesis by (simp add: tick_fields)
  next
    case False
    have "regs_of res (fold expire ?due (emitter s)) = []"
    proof (cases "now s < t0 + 60000")
      case True
      with assms have r: "regs_of res (emitter s) = [Registration ?chan (ResponseListener res) True]"
        and t: "(t0 + 60000, ?chan, ResponseListener res) \<in> set (timers s)"
        by (simp_all add: awaiting_def)
      from t False have "(t0 + 60000, ?chan, ResponseListener res) \<in> set ?due" by simp
      moreover have "\<forall>(d', name, l) \<in> set ?due. l = ResponseListener res \<longrightarrow> name = ?chan"
        using ours by auto
      ultimately show ?thesis using r by (intro regs_of_fold_expire_own)
    next
      case False
      with assms have "regs_of res (emitter s) = []" by (simp add: awaiting_def)
      then show ?thesis by (rule regs_of_fold_expire_none)
    qed
    with False show ?thesis by (simp add: tick_fields)
  qed
  show ?thesis
    using rest regs calls by (simp add: awaiting_def tick_fields)
qed

lemma awaiting_step:
  assumes "awaiting t0 key res s" and "\<not> reuses res a" and "\<not> delivers_to schemas key a"
  shows "awaiting t0 key res (step schemas a s)"
proof (cases a)
  case (Request body r uuid4)
  with assms show ?thesis using awaiting_request by simp
next
  case (Send data)
  with assms show ?thesis using awaiting_send by simp
next
  case (Tick dt)
  with assms show ?thesis using awaiting_tick by simp
next
  case Connect
  with assms(1) show ?thesis by (simp add: awaiting_def connect_fields)
next
  case Disconnect
  with assms(1) show ?thesis by (simp add: awaiting_def disconnect_fields)
next
  case (Listen n)
  with assms(1) show ?thesis by (simp add: awaiting_def listen_fields)
next
  case (Resolve i ok)
  with assms(1) show ?thesis by (simp add: awaiting_def resolve_fields)
qed

lemma awaiting_run:
  assumes "awaiting t0 key res s"
    and "\<forall>a \<in> set acts. \<not> reuses res a \<and> \<not> delivers_to schemas key a"
  shows "awaiting t0 key res (run schemas acts s)"
  using assms
proof (induction acts arbitrary: s)
  case Nil
  then show ?case by (simp add: run_def)
next
  case (Cons a acts)
  then have "awaiting t0 key res (step schemas a s)" by (simp add: awaiting_step)
  then have "awaiting t0 key res (run schemas acts (step schemas a s))"
    using Cons by simp
  then show ?case by (simp add: run_def)
qed

subsection \<open>A listener that is gone is not called\<close>

lemma settled_step:
  assumes "regs_of res (emitter s) = []" and "\<not> reuses res a"
  shows "regs_of res (emitter (step schemas a s)) = [] \<and>
         calls_of res (trace (step schemas a s)) = calls_of res (trace s)"
proof (cases a)
  case (Request body r uuid4)
  show ?thesis
  proof (cases "handle body r uuid4 s")
    case (Inl e)
    with Request assms show ?thesis by simp
  next
    case (Inr s1)
    then obtain msg where
      em: "emitter s1 = emitter (emit ''message'' (Message msg) s) @
                    [Registration (response_event uuid4) (ResponseListener r) True]"
      and tr: "trace s1 = trace (emit ''message'' (Message msg) s) @
                  [OnceCall (response_event uuid4) (ResponseListener r), HttpWrite r (SendStatus 200)]"
      by (rule handle_fields)
    from Request assms(2) have "r \<noteq> res" by simp
    then have "regs_of res (emitter s1) = regs_of res (emitter (emit ''message'' (Message msg) s))"
      by (simp add: em regs_of_def)
    moreover have "calls_of res (trace s1) = calls_of res (trace (emit ''message'' (Message msg) s))"
      by (simp add: tr)
    ultimately show ?thesis
      using Request Inr emit_without_registration [OF assms(1)] by simp
  qed
next
  case (Send data)
  then show ?thesis
    using emit_without_registration [OF assms(1)] assms(1)
    by (simp add: send_def split: option.splits sum.splits prod.splits)
next
  case (Tick dt)
  then show ?thesis
    using regs_of_fold_expire_none [OF assms(1)] by (simp add: tick_fields)
next
  case Connect
  with assms(1) show ?thesis by (simp add: connect_fields)
next
  case Disconnect
  with assms(1) show ?thesis by (simp add: disconnect_fields)
next
  case (Listen n)
  with assms(1) show ?thesis by (simp add: listen_fields)
next
  case (Resolve i ok)
  with assms(1) show ?thesis by (simp add: resolve_fields)
qed

lemma settled_run:
  assumes "regs_of res (emitter s) = []" and "\<forall>a \<in> set acts. \<not> reuses res a"
  shows "regs_of res (emitter (run schemas acts s)) = [] \<and>
         calls_of res (trace (run schemas acts s)) = calls_of res (trace s)"
  using assms
proof (induction acts arbitrary: s)
  case Nil
  then show ?case by (simp add: run_def)
next
  case (Cons a acts)
  have st: "regs_of res (emitter (step schemas a s)) = [] \<and>
        calls_of res (trace (step schemas a s)) = calls_of res (trace s)"
    using Cons.prems by (intro settled_step) simp_all
  then have "regs_of res (emitter (run schemas acts (step schemas a s))) = [] \<and>
        calls_of res (trace (run schemas acts (step schemas a s))) =
        calls_of res (trace (step schemas a s))"
    using Cons by simp
  with st show ?case by (simp add: run_def)
qed

subsection \<open>A subscriber receives a message after its listener is registered\<close>

lemma registered_append: "registered m tr \<Longrightarrow> registered m (tr @ zs)"
  by (induction tr) auto

lemma registered_prepend: "registered m tr \<Longrightarrow> registered m (zs @ tr)"
  by (induction zs) auto

lemma registered_fresh:
  "registered m (EmitCall ''message'' (Message m) # rs @ OnceCall (response_event (messageID m)) l # zs)"
  by (simp add: is_once_for_def)

lemma registered_split:
  assumes "registered m tr"
  shows "\<exists>xs1 xs2 xs3 l. tr = xs1 @ EmitCall ''message'' (Message m) # xs2 @
           OnceCall (response_event (messageID m)) l # xs3"
  using assms
proof (induction tr)
  case Nil
  then show ?case by simp
next
  case (Cons e es)
  show ?case
  proof (cases "e = EmitCall ''message'' (Message m) \<and> list_ex (is_once_for m) es")
    case True
    then obtain e' where "e' \<in> set es" and o: "is_once_for m e'"
      by (auto simp: list_ex_iff)
    then obtain xs2 xs3 where es: "es = xs2 @ e' # xs3"
      by (auto dest: split_list)
    from o obtain l where "e' = OnceCall (response_event (messageID m)) l"
      by (cases e') (simp_all add: is_once_for_def)
    with True es have "e # es = [] @ EmitCall ''message'' (Message m) # xs2 @
        OnceCall (response_event (messageID m)) l # xs3"
      by simp
    then show ?thesis by blast
  next
    case False
    with Cons.prems have "registered m es" by auto
    then obtain xs1 xs2 xs3 l where "es = xs1 @ EmitCall ''message'' (Message m) # xs2 @
           OnceCall (response_event (messageID m)) l # xs3"
      using Cons.IH by blast
    then have "e # es = (e # xs1) @ EmitCall ''message'' (Message m) # xs2 @
           OnceCall (response_event (messageID m)) l # xs3"
      by simp
    then show ?thesis by blast
  qed
qed

lemma received_in_prefix:
  assumes "\<forall>n d. Received n d \<notin> set zs" and "tr @ zs = xs @ Received n d # ys"
  shows "\<exists>ys'. tr = xs @ Received n d # ys'"
  using assms
proof (induction zs arbitrary: ys rule: rev_induct)
  case Nil
  then show ?case by simp
next
  case (snoc z zs)
  show ?case
  proof (cases ys rule: rev_cases)
    case Nil
    with snoc.prems(2) have "z = Received n d" by simp
    then have "Received n d \<in> set (zs @ [z])" by simp
    with snoc.prems(1) show ?thesis by blast
  next
    case (snoc ys' y)
    with snoc.prems(2) have "tr @ zs = xs @ Received n d # ys'" by simp
    moreover have "\<forall>n d. Received n d \<notin> set zs" using snoc.prems(1) by simp
    ultimately show ?thesis using snoc.IH by blast
  qed
qed

lemma orderly_extend:
  assumes "orderly s"
    and "trace s' = trace s @ zs"
    and "\<forall>n d. Received n d \<notin> set zs"
    and "\<forall>n m. (n, Message m) \<in> set (inbox s') \<longrightarrow>
           (n, Message m) \<in> set (inbox s) \<or> registered m (trace s')"
  shows "orderly s'"
proof -
  have a: "\<forall>n m. (n, Message m) \<in> set (inbox s') \<longrightarrow> registered m (trace s')"
  proof (intro allI impI)
    fix n m
    assume i: "(n, Message m) \<in> set (inbox s')"
    show "registered m (trace s')"
    proof (cases "(n, Message m) \<in> set (inbox s)")
      case True
      with assms(1) have "registered m (trace s)" by (simp add: orderly_def)
      then show ?thesis by (simp add: assms(2) registered_append)
    next
      case False
      with i assms(4) show ?thesis by blast
    qed
  qed
  have b: "\<forall>xs n m ys. trace s' = xs @ Received n (Message m) # ys \<longrightarrow> registered m xs"
  proof (intro allI impI)
    fix xs n m ys
    assume "trace s' = xs @ Received n (Message m) # ys"
    then have "trace s @ zs = xs @ Received n (Message m) # ys" by (simp add: assms(2))
    with assms(3) obtain ys' where "trace s = xs @ Received n (Message m) # ys'"
      using received_in_prefix by blast
    with assms(1) show "registered m xs" unfolding orderly_def by blast
  qed
  from a b show ?thesis by (simp add: orderly_def)
qed

lemma reactions_not_received:
  "Received n d' \<notin> set (concat (map (\<lambda>r. reaction d (reg_listener r)) rs))"
proof (induction rs)
  case Nil
  show ?case by simp
next
  case (Cons r rs)
  then show ?case by (cases "reg_listener r") auto
qed

lemma deliveries_payload:
  "(n, d') \<in> set (concat (map (\<lambda>r. delivery d (reg_listener r)) rs)) \<Longrightarrow> d' = d"
proof (induction rs)
  case Nil
  then show ?case by simp
next
  case (Cons r rs)
  then show ?case by (cases "reg_listener r") auto
qed

lemma orderly_handle:
  assumes "orderly s" and "handle body res key s = Inr s1"
  shows "orderly s1"
proof -
  from assms(2) obtain msg where k: "messageID msg = key"
    and tr: "trace s1 = trace (emit ''message'' (Message msg) s) @
                  [OnceCall (response_event key) (ResponseListener res), HttpWrite res (SendStatus 200)]"
    and ib: "inbox s1 = inbox (emit ''message'' (Message msg) s)"
    by (rule handle_fields)
  let ?rs = "filter (\<lambda>r. reg_name r = ''message'') (emitter s)"
  let ?R = "concat (map (\<lambda>r. reaction (Message msg) (reg_listener r)) ?rs)"
  let ?zs = "EmitCall ''message'' (Message msg) # ?R @
               OnceCall (response_event (messageID msg)) (ResponseListener res) #
               [HttpWrite res (SendStatus 200)]"
  have t: "trace s1 = trace s @ ?zs"
    by (simp add: tr emit_fields k)
  have r: "\<forall>n d. Received n d \<notin> set ?zs"
    by (simp add: reactions_not_received del: set_concat)
  have reg: "registered msg (trace s1)"
    unfolding t by (rule registered_prepend) (rule registered_fresh)
  have i: "\<forall>n m. (n, Message m) \<in> set (inbox s1) \<longrightarrow>
           (n, Message m) \<in> set (inbox s) \<or> registered m (trace s1)"
  proof (intro allI impI)
    fix n m
    assume "(n, Message m) \<in> set (inbox s1)"
    then have "(n, Message m) \<in> set (inbox s) \<or>
        (n, Message m) \<in> set (concat (map (\<lambda>r. delivery (Message msg) (reg_listener r)) ?rs))"
      by (simp add: ib emit_fields del: set_concat)
    then show "(n, Message m) \<in> set (inbox s) \<or> registered m (trace s1)"
      using reg deliveries_payload by blast
  qed
  from assms(1) t r i show ?thesis by (rule orderly_extend)
qed

lemma orderly_emit_response:
  assumes "orderly s"
  shows "orderly (emit name (Response resp) s)"
proof -
  let ?rs = "filter (\<lambda>r. reg_name r = name) (emitter s)"
  let ?zs = "EmitCall name (Response resp) #
               concat (map (\<lambda>r. reaction (Response resp) (reg_listener r)) ?rs)"
  have t: "trace (emit name (Response resp) s) = trace s @ ?zs"
    by (simp add: emit_fields)
  have r: "\<forall>n d. Received n d \<notin> set ?zs"
    by (simp add: reactions_not_received del: set_concat)
  have i: "\<forall>n m. (n, Message m) \<in> set (inbox (emit name (Response resp) s)) \<longrightarrow>
           (n, Message m) \<in> set (inbox s) \<or> registered m (trace (emit name (Response resp) s))"
  proof (intro allI impI)
    fix n m
    assume "(n, Message m) \<in> set (inbox (emit name (Response resp) s))"
    then have "(n, Message m) \<in> set (inbox s) \<or>
        (n, Message m) \<in> set (concat (map (\<lambda>r. delivery (Response resp) (reg_listener r)) ?rs))"
      by (simp add: emit_fields del: set_concat)
    then show "(n, Message m) \<in> set (inbox s) \<or>
        registered m (trace (emit name (Response resp) s))"
      using deliveries_payload by blast
  qed
  from assms t r i show ?thesis by (rule orderly_extend)
qed

lemma orderly_quiet:
  assumes "orderly s" and "trace s' = trace s @ zs" and "set zs \<subseteq> {ServerListen, ServerClose}"
    and "inbox s' = inbox s"
  shows "orderly s'"
proof -
  have r: "\<forall>n d. Received n d \<notin> set zs"
    using assms(3) by auto
  have i: "\<forall>n m. (n, Message m) \<in> set (inbox s') \<longrightarrow>
           (n, Message m) \<in> set (inbox s) \<or> registered m (trace s')"
    by (simp add: assms(4))
  from assms(1) assms(2) r i show ?thesis by (rule orderly_extend)
qed

lemma connect_trace:
  "\<exists>zs. trace (snd (connect s)) = trace s @ zs \<and> set zs \<subseteq> {ServerListen, ServerClose}"
  by (cases "webhookServer s") (simp_all add: connect_def Let_def record_event_def)

lemma disconnect_trace:
  "\<exists>zs. trace (disconnect s) = trace s @ zs \<and> set zs \<subseteq> {ServerListen, ServerClose}"
  by (cases "webhookServer s") (simp_all add: disconnect_def Let_def record_event_def)

lemma orderly_resolve:
  assumes "orderly s"
  shows "orderly (resolve i ok s)"
proof (cases "i < length (inbox s)")
  case False
  with assms show ?thesis by (simp add: resolve_def)
next
  case True
  let ?n = "fst (inbox s ! i)" and ?d = "snd (inbox s ! i)"
  let ?rest = "take i (inbox s) @ drop (Suc i) (inbox s)"
  have mem: "(?n, ?d) \<in> set (inbox s)"
    using True by simp
  have sub: "set ?rest \<subseteq> set (inbox s)"
    using set_take_subset [of i "inbox s"] set_drop_subset [of "Suc i" "inbox s"] by auto
  show ?thesis
  proof (cases ok)
    case False
    have "trace (resolve i ok s) = trace s" "inbox (resolve i ok s) = ?rest"
      using True False by (simp_all add: resolve_def Let_def)
    with assms sub show ?thesis
      unfolding orderly_def by (simp del: set_append) blast
  next
    case ok: True
    have t: "trace (resolve i ok s) = trace s @ [Received ?n ?d]"
      and ib: "inbox (resolve i ok s) = ?rest"
      using True ok by (simp_all add: resolve_def Let_def record_event_def)
    have a: "\<forall>n m. (n, Message m) \<in> set (inbox (resolve i ok s)) \<longrightarrow>
               registered m (trace (resolve i ok s))"
    proof (intro allI impI)
      fix n m
      assume "(n, Message m) \<in> set (inbox (resolve i ok s))"
      with sub have "(n, Message m) \<in> set (inbox s)" unfolding ib by blast
      with assms have "registered m (trace s)" by (simp add: orderly_def)
      then show "registered m (trace (resolve i ok s))"
        by (simp add: t registered_append)
    qed
    have b: "\<forall>xs n m ys. trace (resolve i ok s) = xs @ Received n (Message m) # ys \<longrightarrow>
               registered m xs"
    proof (intro allI impI)
      fix xs n m ys
      assume e: "trace (resolve i ok s) = xs @ Received n (Message m) # ys"
      show "registered m xs"
      proof (cases ys rule: rev_cases)
        case Nil
        with e t have "xs = trace s" and "?n = n" and "?d = Message m" by simp_all
        with mem have "(n, Message m) \<in> set (inbox s)" by simp
        with assms \<open>xs = trace s\<close> show ?thesis by (simp add: orderly_def)
      next
        case (snoc ys' y)
        with e t have "trace s = xs @ Received n (Message m) # ys'" by simp
        with assms show ?thesis unfolding orderly_def by blast
      qed
    qed
    from a b show ?thesis by (simp add: orderly_def)
  qed
qed

lemma orderly_step:
  assumes "orderly s"
  shows "orderly (step schemas a s)"
proof (cases a)
  case (Request body r uuid4)
  show ?thesis
  proof (cases "handle body r uuid4 s")
    case (Inl e)
    with Request assms show ?thesis by simp
  next
    case (Inr s1)
    with assms have "orderly s1" by (rule orderly_handle)
    with Request Inr show ?thesis by simp
  qed
next
  case (Send data)
  then show ?thesis
    using assms orderly_emit_response [OF assms]
    by (simp add: send_def split: option.splits sum.splits prod.splits)
next
  case (Tick dt)
  have "orderly (tick dt s)"
    using assms by (rule orderly_quiet [where zs = "[]"]) (simp_all add: tick_fields)
  with Tick show ?thesis by simp
next
  case Connect
  obtain zs where "trace (snd (connect s)) = trace s @ zs" "set zs \<subseteq> {ServerListen, ServerClose}"
    using connect_trace by blast
  with assms have "orderly (snd (connect s))"
    by (rule orderly_quiet) (simp add: connect_fields)
  with Connect show ?thesis by simp
next
  case Disconnect
  obtain zs where "trace (disconnect s) = trace s @ zs" "set zs \<subseteq> {ServerListen, ServerClose}"
    using disconnect_trace by blast
  with assms have "orderly (disconnect s)"
    by (rule orderly_quiet) (simp add: disconnect_fields)
  with Disconnect show ?thesis by simp
next
  case (Listen n)
  have "orderly (listen n s)"
    using assms by (rule orderly_quiet [where zs = "[]"]) (simp_all add: listen_fields)
  with Listen show ?thesis by simp
next
  case (Resolve i ok)
  with assms show ?thesis by (simp add: orderly_resolve)
qed

lemma orderly_run:
  assumes "orderly s"
  shows "orderly (run schemas acts s)"
  using assms
proof (induction acts arbitrary: s)
  case Nil
  then show ?case by (simp add: run_Nil)
next
  case (Cons a acts)
  then show ?case by (simp add: run_Cons orderly_step del: step.simps)
qed

lemma orderly_constructor: "orderly (constructor obj uuid4)"
  by (simp add: orderly_def constructor_def Let_def)

section \<open>The claims\<close>

subsection \<open>C1: publishing and registering\<close>

text \<open>
  C1 as amended: the handler registers the response listener under the fresh correlation
  key before the event is visible to any consumer, though after it has published the event
  on \<open>message\<close>. In every run of an adapter, when a subscriber of \<open>listen()\<close>
  receives the event of a message, the message was published before, and a listener was
  registered under the event of its key between the publication and the receipt.
\<close>

theorem registered_before_received:
  assumes "trace (run schemas acts (constructor obj uuid4)) = xs @ Received n (Message m) # ys"
  shows "\<exists>xs1 xs2 xs3 l.
           xs = xs1 @ EmitCall ''message'' (Message m) # xs2 @
                OnceCall (response_event (messageID m)) l # xs3"
proof -
  have "orderly (run schemas acts (constructor obj uuid4))"
    using orderly_constructor by (rule orderly_run)
  with assms have "registered m xs"
    unfolding orderly_def by blast
  then show ?thesis by (rule registered_split)
qed

theorem registered_before_received_witness:
  "trace (run accept [Listen 0, Request hello_body 0 ''k1'', Resolve 0 True]
      (constructor JUndefined ''svc'')) =
     [EmitCall ''message'' (Message (hello_message ''k1'')),
      Invoked (MessageListener 0) (Message (hello_message ''k1'')),
      OnceCall (response_event ''k1'') (ResponseListener 0),
      HttpWrite 0 (SendStatus 200)] @
     Received 0 (Message (hello_message ''k1'')) # [] \<and>
   (\<exists>xs1 xs2 xs3 l.
      [EmitCall ''message'' (Message (hello_message ''k1'')),
       Invoked (MessageListener 0) (Message (hello_message ''k1'')),
       OnceCall (response_event ''k1'') (ResponseListener 0),
       HttpWrite 0 (SendStatus 200)] =
      xs1 @ EmitCall ''message'' (Message (hello_message ''k1'')) # xs2 @
        OnceCall (response_event (messageID (hello_message ''k1''))) l # xs3)"
proof -
  have h: "trace (run accept [Listen 0, Request hello_body 0 ''k1'', Resolve 0 True]
      (constructor JUndefined ''svc'')) =
     [EmitCall ''message'' (Message (hello_message ''k1'')),
      Invoked (MessageListener 0) (Message (hello_message ''k1'')),
      OnceCall (response_event ''k1'') (ResponseListener 0),
      HttpWrite 0 (SendStatus 200)] @
     Received 0 (Message (hello_message ''k1'')) # []"
    by (simp add: run_def handle_def normalize_def get_def hello_body_def hello_message_def
        listen_def constructor_def emit_def fire_def once_def setTimeout_def record_event_def
        resolve_def Let_def)
  from h registered_before_received [OF h] show ?thesis
    by (intro conjI)
qed

text \<open>
  C1 as the claim words it fails: the handler publishes first. \<open>emit\<close> (line 180)
  calls every \<open>message\<close> listener before \<open>once\<close> (line 181) runs, so for the
  request of the specification's scenario the stream of a subscription has taken the event
  in before the listener is registered.
\<close>

theorem handle_emits_before_once:
  "map_sum id trace (handle hello_body 0 ''k1'' (listen 0 (constructor JUndefined ''svc''))) =
     Inr [EmitCall ''message'' (Message (hello_message ''k1'')),
          Invoked (MessageListener 0) (Message (hello_message ''k1'')),
          OnceCall (response_event ''k1'') (ResponseListener 0),
          HttpWrite 0 (SendStatus 200)]"
  by (simp add: handle_def normalize_def get_def hello_body_def hello_message_def listen_def
      constructor_def emit_def fire_def once_def setTimeout_def record_event_def Let_def)

subsection \<open>C2: one HTTP response for a request\<close>

text \<open>
  C2 says that the handler writes at most one HTTP response to a request. The handler
  always ends with \<open>res.sendStatus(200)\<close> (line 188), and the listener it registered
  calls \<open>res.json\<close> (line 179) when the reply arrives: for a request that is answered
  within the timeout, two responses are written to the same response object.
\<close>

theorem request_then_send_writes_twice:
  "http_writes 0 (trace (run accept [Request hello_body 0 ''k2'', Send (note_command ''k2'' ''hello'')]
       (constructor JUndefined ''svc''))) =
     [SendStatus 200, Json (Response (plain_response ''hello''))]"
  by (simp add: run_def handle_def normalize_def get_def hello_body_def note_command_def
      plain_response_def accept_def send_def build_response_def startsWith_def endsWith_def
      constructor_def emit_def fire_def once_def setTimeout_def record_event_def
      response_event_def remove_last_def Let_def)

subsection \<open>C3: the speech branch\<close>

text \<open>
  C3 as amended: for every content string that goes through a successful \<open>send\<close>, the
  output speech is SSML with the raw content if the raw content (not its trimmed text)
  starts with \<open><speak>\<close> and ends with \<open></speak>\<close>, and PlainText with the raw
  content otherwise.
\<close>

theorem send_classifies_raw_content:
  assumes "send schemas data s = (Inr v, s')"
  shows "\<exists>to resp c.
           build_response data = Inr (to, resp) \<and>
           js_prop (js_prop data ''object'') ''content'' = JStr c \<and>
           s' = emit (response_event (template to)) (Response resp) s \<and>
           outputSpeech resp =
             (if startsWith c ''<speak>'' \<and> endsWith c ''</speak>'' then SSML c else PlainText c)"
proof -
  from assms obtain to resp where b: "build_response data = Inr (to, resp)"
    and s': "s' = emit (response_event (template to)) (Response resp) s"
    by (rule send_success)
  from b obtain c where "js_prop (js_prop data ''object'') ''content'' = JStr c"
    "outputSpeech resp =
       (if startsWith c ''<speak>'' \<and> endsWith c ''</speak>'' then SSML c else PlainText c)"
    by (rule build_response_success)
  with b s' show ?thesis by blast
qed

theorem send_classifies_raw_content_witness:
  "send accept (note_command ''k1'' ''<speak>hi</speak>'') (constructor JUndefined ''svc'') =
     (Inr (JObj [(''type'', JStr ''sent''), (''serviceID'', JStr ''svc'')]),
      emit (response_event ''k1'') (Response (ssml_response ''<speak>hi</speak>''))
        (constructor JUndefined ''svc'')) \<and>
   (\<exists>to resp c.
      build_response (note_command ''k1'' ''<speak>hi</speak>'') = Inr (to, resp) \<and>
      js_prop (js_prop (note_command ''k1'' ''<speak>hi</speak>'') ''object'') ''content'' = JStr c \<and>
      emit (response_event ''k1'') (Response (ssml_response ''<speak>hi</speak>''))
        (constructor JUndefined ''svc'') =
      emit (response_event (template to)) (Response resp) (constructor JUndefined ''svc'') \<and>
      outputSpeech resp =
        (if startsWith c ''<speak>'' \<and> endsWith c ''</speak>'' then SSML c else PlainText c))"
proof -
  have h: "send accept (note_command ''k1'' ''<speak>hi</speak>'') (constructor JUndefined ''svc'') =
     (Inr (JObj [(''type'', JStr ''sent''), (''serviceID'', JStr ''svc'')]),
      emit (response_event ''k1'') (Response (ssml_response ''<speak>hi</speak>''))
        (constructor JUndefined ''svc''))"
    by (simp add: send_def accept_def build_response_def get_def note_command_def
        ssml_response_def startsWith_def endsWith_def serviceId_def)
       (simp add: constructor_def)
  show ?thesis
    using h send_classifies_raw_content [OF h] by simp
qed

text \<open>
  C3 as the specification words it fails: content with a leading blank is PlainText for
  the code, although its trimmed text starts with \<open><speak>\<close> and ends with
  \<open></speak>\<close>.
\<close>

theorem send_trimmed_counterexample:
  "trace (snd (send accept (note_command ''k1'' '' <speak>hi</speak>'') (constructor JUndefined ''svc''))) =
     [EmitCall (response_event ''k1'') (Response (plain_response '' <speak>hi</speak>''))] \<and>
   outputSpeech (plain_response '' <speak>hi</speak>'') = PlainText '' <speak>hi</speak>'' \<and>
   startsWith (trim '' <speak>hi</speak>'') ''<speak>'' \<and>
   endsWith (trim '' <speak>hi</speak>'') ''</speak>'' \<and>
   classify_trimmed '' <speak>hi</speak>'' = SSML '' <speak>hi</speak>''"
  by (simp add: note_command_def plain_response_def accept_def send_def build_response_def get_def
      startsWith_def endsWith_def constructor_def emit_def record_event_def
      trim_def is_whitespace_def classify_trimmed_def)

subsection \<open>C4: a delivery within the timeout\<close>

text \<open>
  C4: a request registers the listener of its response object under its correlation key.
  When, after less than 60000 ms and after any other requests, deliveries to other keys and
  timer runs, a \<open>send\<close> delivers to that key, the listener has been called exactly once,
  with the delivered response. Whatever follows (more deliveries to the key, the expiry of
  the timer, other requests) does not call it again.
\<close>

theorem deliver_invokes_once:
  assumes "unused res s"
    and "normalize body key = Inr msg"
    and "\<forall>a \<in> set pre. \<not> reuses res a \<and> \<not> delivers_to schemas key a"
    and "elapsed pre < 60000"
    and "recipient schemas data = Some key"
    and "build_response data = Inr (to, resp)"
    and "\<forall>a \<in> set post. \<not> reuses res a"
  shows "calls_of res (trace (run schemas (Request body res key # pre @ [Send data]) s)) = [Response resp] \<and>
         calls_of res (trace (run schemas (Request body res key # pre @ Send data # post) s)) = [Response resp]"
proof -
  from assms(2) obtain s1 where h: "handle body res key s = Inr s1"
    and st: "step schemas (Request body res key) s = s1"
    by (rule request_step)
  let ?s2 = "run schemas pre s1"
  let ?s3 = "step schemas (Send data) ?s2"
  have a1: "awaiting (now s) key res s1"
    using assms(1) h by (rule handle_awaiting)
  then have a2: "awaiting (now s) key res ?s2"
    using assms(3) by (rule awaiting_run)
  have "now s1 = now s" using h by (rule handle_fields)
  then have "now ?s2 < now s + 60000"
    using assms(4) by (simp add: now_run)
  with a2 have regs: "regs_of res (emitter ?s2) = [Registration (response_event key) (ResponseListener res) True]"
    and calls: "calls_of res (trace ?s2) = []"
    by (simp_all add: awaiting_def)
  from assms(5) assms(6) have sch: "schemas data ''send'' = None" and key: "template to = key"
    by (simp_all add: recipient_def split: option.splits)
  then have s3: "?s3 = emit (response_event key) (Response resp) ?s2"
    using assms(6) by (simp add: send_def)
  have c3: "calls_of res (trace ?s3) = [Response resp]"
    and r3: "regs_of res (emitter ?s3) = []"
    using emit_own_channel [OF regs] calls unfolding s3 by simp_all
  have "calls_of res (trace (run schemas post ?s3)) = calls_of res (trace ?s3)"
    using settled_run [OF r3 assms(7)] by simp
  with c3 show ?thesis
    by (simp add: run_Cons run_Nil run_append st del: step.simps)
qed

theorem deliver_invokes_once_witness:
  "unused 0 (constructor JUndefined ''svc'') \<and>
   normalize hello_body ''k2'' = Inr (hello_message ''k2'') \<and>
   elapsed [Tick 1000] < 60000 \<and>
   recipient accept (note_command ''k2'' ''hello'') = Some ''k2'' \<and>
   build_response (note_command ''k2'' ''hello'') = Inr (JStr ''k2'', plain_response ''hello'') \<and>
   calls_of 0 (trace (run accept [Request hello_body 0 ''k2'', Tick 1000, Send (note_command ''k2'' ''hello'')]
       (constructor JUndefined ''svc''))) = [Response (plain_response ''hello'')] \<and>
   calls_of 0 (trace (run accept [Request hello_body 0 ''k2'', Tick 1000, Send (note_command ''k2'' ''hello''),
        Send (note_command ''k2'' ''hello''), Tick 60000]
       (constructor JUndefined ''svc''))) = [Response (plain_response ''hello'')]"
proof -
  have h1: "unused 0 (constructor JUndefined ''svc'')"
    by (simp add: unused_def regs_of_def constructor_def)
  have h2: "normalize hello_body ''k2'' = Inr (hello_message ''k2'')"
    by (simp add: normalize_def get_def hello_body_def hello_message_def)
  have h3: "\<forall>a \<in> set [Tick 1000]. \<not> reuses 0 a \<and> \<not> delivers_to accept ''k2'' a"
    by simp
  have h4: "elapsed [Tick 1000] < 60000"
    by simp
  have h6: "build_response (note_command ''k2'' ''hello'') = Inr (JStr ''k2'', plain_response ''hello'')"
    by (simp add: build_response_def get_def note_command_def plain_response_def startsWith_def endsWith_def)
  have h5: "recipient accept (note_command ''k2'' ''hello'') = Some ''k2''"
    by (simp add: recipient_def accept_def h6)
  have h7: "\<forall>a \<in> set [Send (note_command ''k2'' ''hello''), Tick 60000]. \<not> reuses 0 a"
    by simp
  show ?thesis
    using deliver_invokes_once [OF h1 h2 h3 h4 h5 h6 h7] h1 h2 h4 h5 h6
    by simp
qed

subsection \<open>C5: no delivery\<close>

text \<open>
  C5: when nothing is delivered to the key of a request, its listener is never called, and
  it is registered exactly as long as less than 60000 ms have passed since the request:
  the timer removes it.
\<close>

theorem expiry_removes_silently:
  assumes "unused res s"
    and "normalize body key = Inr msg"
    and "\<forall>a \<in> set acts. \<not> reuses res a \<and> \<not> delivers_to schemas key a"
  shows "calls_of res (trace (run schemas (Request body res key # acts) s)) = [] \<and>
         regs_of res (emitter (run schemas (Request body res key # acts) s)) =
           (if elapsed acts < 60000
            then [Registration (response_event key) (ResponseListener res) True] else [])"
proof -
  from assms(2) obtain s1 where h: "handle body res key s = Inr s1"
    and st: "step schemas (Request body res key) s = s1"
    by (rule request_step)
  have "awaiting (now s) key res s1"
    using assms(1) h by (rule handle_awaiting)
  then have a: "awaiting (now s) key res (run schemas acts s1)"
    using assms(3) by (rule awaiting_run)
  have "now s1 = now s" using h by (rule handle_fields)
  then have "now (run schemas acts s1) = now s + elapsed acts"
    by (simp add: now_run)
  with a show ?thesis
    by (simp add: awaiting_def run_Cons st del: step.simps)
qed

theorem expiry_removes_silently_witness:
  "unused 0 (constructor JUndefined ''svc'') \<and>
   normalize hello_body ''k2'' = Inr (hello_message ''k2'') \<and>
   calls_of 0 (trace (run accept [Request hello_body 0 ''k2'', Tick 59999, Send (note_command ''k1'' ''hello''), Tick 1]
       (constructor JUndefined ''svc''))) = [] \<and>
   regs_of 0 (emitter (run accept [Request hello_body 0 ''k2'', Tick 59999, Send (note_command ''k1'' ''hello''), Tick 1]
       (constructor JUndefined ''svc''))) = []"
proof -
  have h1: "unused 0 (constructor JUndefined ''svc'')"
    by (simp add: unused_def regs_of_def constructor_def)
  have h2: "normalize hello_body ''k2'' = Inr (hello_message ''k2'')"
    by (simp add: normalize_def get_def hello_body_def hello_message_def)
  have b: "build_response (note_command ''k1'' ''hello'') = Inr (JStr ''k1'', plain_response ''hello'')"
    by (simp add: build_response_def get_def note_command_def plain_response_def startsWith_def endsWith_def)
  have h3: "\<forall>a \<in> set [Tick 59999, Send (note_command ''k1'' ''hello''), Tick 1].
              \<not> reuses 0 a \<and> \<not> delivers_to accept ''k2'' a"
    by (simp add: recipient_def accept_def b)
  show ?thesis
    using expiry_removes_silently [OF h1 h2 h3] h1 h2
    by simp
qed

subsection \<open>C6: the intent name\<close>

text \<open>
  C6: for a body with a request and a session, the handler succeeds and publishes a message
  whose \<open>intentName\<close> is the request type when that is not \<open>IntentRequest\<close>, and
  otherwise the name of the nested intent, or \<open>undefined\<close> (no error) when the request
  has no intent.
\<close>

theorem normalize_intentName:
  assumes "get body ''request'' = Inr request" and "get body ''session'' = Inr session"
    and "\<not> nullish request" and "\<not> nullish session"
  shows "\<exists>m s'. normalize body uuid4 = Inr m \<and>
           handle body res uuid4 s = Inr s' \<and>
           EmitCall ''message'' (Message m) \<in> set (trace s') \<and>
           requestType m = js_prop request ''type'' \<and>
           (requestType m \<noteq> JStr ''IntentRequest'' \<longrightarrow> intentName m = requestType m) \<and>
           (requestType m = JStr ''IntentRequest'' \<longrightarrow>
              intentName m =
                (if nullish (js_prop request ''intent'') then JUndefined
                 else js_prop (js_prop request ''intent'') ''name''))"
proof -
  let ?rt = "js_prop request ''type''"
  let ?m = "\<lparr>application = js_prop session ''application'',
            intentName = (if ?rt = JStr ''IntentRequest''
                          then path [''intent'', ''name''] request else ?rt),
            messageID = uuid4,
            requestType = ?rt,
            slots = (if truthy (path [''intent'', ''slots''] request)
                     then path [''intent'', ''slots''] request else JObj []),
            user = js_prop session ''user''\<rparr>"
  have n: "normalize body uuid4 = Inr ?m"
    using assms by (simp add: normalize_def get_def Let_def)
  then obtain s' where h: "handle body res uuid4 s = Inr s'"
    by (simp add: handle_def Let_def)
  then obtain msg where "normalize body uuid4 = Inr msg"
    and "trace s' = trace (emit ''message'' (Message msg) s) @
           [OnceCall (response_event uuid4) (ResponseListener res), HttpWrite res (SendStatus 200)]"
    by (rule handle_fields)
  with n have e: "EmitCall ''message'' (Message ?m) \<in> set (trace s')"
    by (simp add: emit_fields)
  have rt: "requestType ?m = ?rt"
    by simp
  have other: "requestType ?m \<noteq> JStr ''IntentRequest'' \<longrightarrow> intentName ?m = requestType ?m"
    by simp
  have intent: "requestType ?m = JStr ''IntentRequest'' \<longrightarrow>
      intentName ?m = (if nullish (js_prop request ''intent'') then JUndefined
                       else js_prop (js_prop request ''intent'') ''name'')"
    using assms(3) by simp
  from n h e rt other intent show ?thesis
    by blast
qed

theorem normalize_intentName_witness:
  "get hello_body ''request'' =
     Inr (JObj [(''type'', JStr ''IntentRequest''),
                (''intent'', JObj [(''name'', JStr ''Hello''), (''slots'', JObj [])])]) \<and>
   get hello_body ''session'' =
     Inr (JObj [(''application'', JObj [(''id'', JStr ''a'')]), (''user'', JObj [(''id'', JStr ''u'')])]) \<and>
   (\<exists>m s'. normalize hello_body ''k1'' = Inr m \<and>
      handle hello_body 0 ''k1'' (constructor JUndefined ''svc'') = Inr s' \<and>
      EmitCall ''message'' (Message m) \<in> set (trace s') \<and>
      requestType m = JStr ''IntentRequest'' \<and>
      intentName m = JStr ''Hello'') \<and>
   get bare_intent_body ''request'' = Inr (JObj [(''type'', JStr ''IntentRequest'')]) \<and>
   get bare_intent_body ''session'' = Inr (JObj []) \<and>
   (\<exists>m s'. normalize bare_intent_body ''k1'' = Inr m \<and>
      handle bare_intent_body 0 ''k1'' (constructor JUndefined ''svc'') = Inr s' \<and>
      EmitCall ''message'' (Message m) \<in> set (trace s') \<and>
      requestType m = JStr ''IntentRequest'' \<and>
      intentName m = JUndefined)"
proof -
  have h1: "get hello_body ''request'' =
     Inr (JObj [(''type'', JStr ''IntentRequest''),
                (''intent'', JObj [(''name'', JStr ''Hello''), (''slots'', JObj [])])])"
    by (simp add: get_def hello_body_def)
  have h2: "get hello_body ''session'' =
     Inr (JObj [(''application'', JObj [(''id'', JStr ''a'')]), (''user'', JObj [(''id'', JStr ''u'')])])"
    by (simp add: get_def hello_body_def)
  have named: "\<exists>m s'. normalize hello_body ''k1'' = Inr m \<and>
      handle hello_body 0 ''k1'' (constructor JUndefined ''svc'') = Inr s' \<and>
      EmitCall ''message'' (Message m) \<in> set (trace s') \<and>
      requestType m = JStr ''IntentRequest'' \<and>
      intentName m = JStr ''Hello''"
    using normalize_intentName [OF h1 h2, of "''k1''" 0 "constructor JUndefined ''svc''"]
    by simp blast
  have b1: "get bare_intent_body ''request'' = Inr (JObj [(''type'', JStr ''IntentRequest'')])"
    by (simp add: get_def bare_intent_body_def)
  have b2: "get bare_intent_body ''session'' = Inr (JObj [])"
    by (simp add: get_def bare_intent_body_def)
  have bare: "\<exists>m s'. normalize bare_intent_body ''k1'' = Inr m \<and>
      handle bare_intent_body 0 ''k1'' (constructor JUndefined ''svc'') = Inr s' \<and>
      EmitCall ''message'' (Message m) \<in> set (trace s') \<and>
      requestType m = JStr ''IntentRequest'' \<and>
      intentName m = JUndefined"
    using normalize_intentName [OF b1 b2, of "''k1''" 0 "constructor JUndefined ''svc''"]
    by simp blast
  from h1 h2 named b1 b2 bare show ?thesis
    by (intro conjI)
qed

subsection \<open>C7: commands that are not notes\<close>




subsection \<open>C8: the session ends\<close>

text \<open>
  C8: every successful \<open>send\<close> emits a response whose \<open>shouldEndSession\<close> is true.
\<close>

theorem send_ends_session:
  assumes "send schemas data s = (Inr v, s')"
  shows "\<exists>to resp. build_response data = Inr (to, resp) \<and> shouldEndSession resp \<and>
           s' = emit (response_event (template to)) (Response resp) s \<and>
           EmitCall (response_event (template to)) (Response resp) \<in> set (trace s')"
proof -
  from assms obtain to resp where b: "build_response data = Inr (to, resp)"
    and s': "s' = emit (response_event (template to)) (Response resp) s"
    by (rule send_success)
  from b have "shouldEndSession resp" by (rule build_response_success)
  moreover have "EmitCall (response_event (template to)) (Response resp) \<in> set (trace s')"
    by (simp add: s' emit_fields)
  ultimately show ?thesis using b s' by blast
qed

theorem send_ends_session_witness:
  "send accept (note_command ''k2'' ''hello'') (constructor JUndefined ''svc'') =
     (Inr (JObj [(''type'', JStr ''sent''), (''serviceID'', JStr ''svc'')]),
      emit (response_event ''k2'') (Response (plain_response ''hello''))
        (constructor JUndefined ''svc'')) \<and>
   (\<exists>to resp.
      build_response (note_command ''k2'' ''hello'') = Inr (to, resp) \<and> shouldEndSession resp \<and>
      emit (response_event ''k2'') (Response (plain_response ''hello''))
        (constructor JUndefined ''svc'') =
      emit (response_event (template to)) (Response resp) (constructor JUndefined ''svc'') \<and>
      EmitCall (response_event (template to)) (Response resp) \<in>
        set (trace (emit (response_event ''k2'') (Response (plain_response ''hello''))
               (constructor JUndefined ''svc''))))"
proof -
  have h: "send accept (note_command ''k2'' ''hello'') (constructor JUndefined ''svc'') =
     (Inr (JObj [(''type'', JStr ''sent''), (''serviceID'', JStr ''svc'')]),
      emit (response_event ''k2'') (Response (plain_response ''hello''))
        (constructor JUndefined ''svc''))"
    by (simp add: send_def accept_def build_response_def get_def note_command_def
        plain_response_def startsWith_def endsWith_def serviceId_def)
       (simp add: constructor_def)
  show ?thesis
    using h send_ends_session [OF h] by simp
qed

subsection \<open>C9: connecting twice\<close>

text \<open>
  C9: \<open>connect\<close> returns the connected indicator with the service ID of the adapter, and
  a second \<open>connect\<close> returns the same indicator and leaves the adapter exactly as the
  first call left it: the webhook server is not asked to listen again.
\<close>

theorem connect_twice:
  "fst (connect s) = JObj [(''type'', JStr ''connected''), (''serviceID'', serviceID s)] \<and>
   connect (snd (connect s)) =
     (JObj [(''type'', JStr ''connected''), (''serviceID'', serviceID s)], snd (connect s))"
  by (simp add: connect_def serviceId_def record_event_def Let_def split: option.splits)

subsection \<open>C10: the router\<close>

text \<open>
  C10: at any time after the construction, \<open>getRouter\<close> returns \<open>null\<close> when the
  options had an \<open>http\<close> entry (the webhook server was created), and the router that
  \<open>setupRouter\<close> built when they had none.
\<close>

theorem getRouter_after_construction:
  "getRouter (run schemas acts (constructor obj uuid4)) =
     (if truthy obj \<and> truthy (js_prop obj ''http'') then None else Some setupRouter)"
  by (simp add: getRouter_def run_keeps_server constructor_fields)

theorem getRouter_after_construction_witness:
  "getRouter (run accept [Request hello_body 0 ''k1'']
     (constructor (JObj [(''http'', JObj [(''port'', JNum ''8080'')])]) ''svc'')) = None \<and>
   getRouter (run accept [Request hello_body 0 ''k1''] (constructor JUndefined ''svc'')) =
     Some [(GET, ''/''), (POST, ''/'')]"
  using getRouter_after_construction
          [of accept "[Request hello_body 0 ''k1'']"
              "JObj [(''http'', JObj [(''port'', JNum ''8080'')])]" "''svc''"]
        getRouter_after_construction
          [of accept "[Request hello_body 0 ''k1'']" JUndefined "''svc''"]
  by (simp add: setupRouter_def)

end
